theory Spec2Isabelle
  imports Main "HOL-Library.Word" "HOL-Library.AList"
begin

unbundle bit_operations_syntax

section \<open>Static runtime: options and the checks of StaticModule's constructor\<close>

text \<open>
  A shallow embedding of \<^verbatim>\<open>torch/csrc/jit/runtime/static/impl.cpp\<close>.
  \<^verbatim>\<open>size_t\<close> is a 64-bit word, so that sums and the alignment mask wrap as in the source.
\<close>

type_synonym size_t = "64 word"

text \<open>
  What a call can raise: a failed \<^verbatim>\<open>TORCH_CHECK\<close>, a failed \<^verbatim>\<open>DCHECK\<close> of a debug build, an
  access outside a container (\<^verbatim>\<open>at()\<close> throws; an unchecked index is undefined), the value
  of an empty \<^verbatim>\<open>optional\<close>, an error of a kernel. \<open>OutOfFuel\<close> is no error of the program:
  the bound on the depth of a recursion of the model was reached.
\<close>

datatype error =
    TorchCheckFailed string
  | DCheckFailed
  | OutOfRange
  | BadOptionalAccess
  | KernelFailure
  | OutOfFuel

record StaticModuleOptions =
  cleanup_activations :: bool
  enable_out_variant :: bool
  optimize_memory :: bool
  optimize_graph_output_memory :: bool

text \<open>\<^verbatim>\<open>TORCH_CHECK(cond, msg)\<close>: raises when the condition is false.\<close>

definition TORCH_CHECK :: "bool \<Rightarrow> string \<Rightarrow> error + unit" where
  "TORCH_CHECK c msg = (if c then Inr () else Inl (TorchCheckFailed msg))"

text \<open>The two option checks at the head of \<^verbatim>\<open>StaticModule::StaticModule\<close>, in the source's order.\<close>

definition check_opt_flags :: "StaticModuleOptions \<Rightarrow> error + unit" where
  "check_opt_flags opts =
     (case (if optimize_graph_output_memory opts
            then TORCH_CHECK (enable_out_variant opts \<and> optimize_memory opts)
                   ''When optimize_graph_output_memory is true, enable_out_variant and optimize_memory must be set to true''
            else Inr ()) of
        Inl e \<Rightarrow> Inl e
      | Inr _ \<Rightarrow>
          (if optimize_memory opts
           then TORCH_CHECK (enable_out_variant opts)
                  ''When optimize_memory is true, enable_out_variant must be set to true''
           else Inr ()))"

section \<open>MemoryPlanner::compute_aligned_tensor_size\<close>

text \<open>
  \<^verbatim>\<open>c10::gAlignment\<close> is declared outside the embedded file; it is the parameter \<open>A\<close>
  of the model. The source computes in \<^verbatim>\<open>size_t\<close>.
\<close>

definition compute_aligned_tensor_size :: "size_t \<Rightarrow> size_t \<Rightarrow> size_t" where
  "compute_aligned_tensor_size A nbytes = (nbytes + A - 1) AND (NOT (A - 1))"

section \<open>Values, boxed slots and the heap\<close>

text \<open>
  A \<^verbatim>\<open>const Value*\<close> is an identity. An \<^verbatim>\<open>IValue*\<close> or \<^verbatim>\<open>at::Tensor*\<close> held by the runtime
  points into one of three arrays: \<^verbatim>\<open>inputs_\<close>, the module's \<^verbatim>\<open>constants_\<close>, or the
  \<^verbatim>\<open>outputs_\<close> of the node at an index.
\<close>

type_synonym Value = nat
type_synonym addr = nat

datatype slot = InputSlot nat | ConstSlot nat | OutSlot nat nat

text \<open>A boxed value; a tensor carries whether it is defined.\<close>

datatype IValue = IVNone | IVTensor bool | IVOther | IVTuple "IValue list"

fun isNone :: "IValue \<Rightarrow> bool" where
  "isNone IVNone = True"
| "isNone _ = False"

fun isTensor :: "IValue \<Rightarrow> bool" where
  "isTensor (IVTensor _) = True"
| "isTensor _ = False"

fun tensor_defined :: "IValue \<Rightarrow> bool" where
  "tensor_defined (IVTensor d) = d"
| "tensor_defined _ = False"

datatype data_ptr = NullPtr | ArenaPtr size_t | HeapPtr nat

record StorageImpl =
  st_nbytes :: size_t
  st_data :: data_ptr

text \<open>
  The heap: what each slot holds, the \<^verbatim>\<open>StorageImpl\<close> that \<^verbatim>\<open>tensor->storage()\<close> reaches for
  the tensor of a slot, and the storages by address. Two slots may reach the same storage.
\<close>

record heap =
  ivalues :: "slot \<Rightarrow> IValue"
  tensor_storage :: "slot \<Rightarrow> addr"
  storages :: "addr \<Rightarrow> StorageImpl"

definition storage_nbytes :: "heap \<Rightarrow> slot \<Rightarrow> size_t" where
  "storage_nbytes h t = st_nbytes (storages h (tensor_storage h t))"

definition set_storage :: "heap \<Rightarrow> slot \<Rightarrow> StorageImpl \<Rightarrow> heap" where
  "set_storage h t s = h\<lparr>storages := (storages h)(tensor_storage h t := s)\<rparr>"

text \<open>
  Modelled from the spec: \<^verbatim>\<open>StorageImpl::reset\<close> is defined outside the embedded file; it
  frees the data pointer and keeps the \<^verbatim>\<open>StorageImpl\<close> alive (spec 4.5). The storage it leaves
  is empty: no data and a size of zero bytes.
\<close>

definition storage_reset :: "heap \<Rightarrow> slot \<Rightarrow> heap" where
  "storage_reset h t = set_storage h t \<lparr>st_nbytes = 0, st_data = NullPtr\<rparr>"

section \<open>MemoryPlanner\<close>

text \<open>
  \<^verbatim>\<open>managed_tensors_\<close> pairs a learned size with the tensors of one cluster.
  \<open>buffers_acquired\<close> is a ghost field: the sizes passed to \<^verbatim>\<open>allocate_buffer\<close> so far.
\<close>

record MemoryPlanner =
  managed_tensors :: "(size_t \<times> slot list) list"
  unmanaged_ivalues :: "slot list"
  managed_bytes :: size_t
  reused_tensors :: size_t
  buffer :: "size_t option"
  buffers_acquired :: "size_t list"

definition allocate_buffer :: "MemoryPlanner \<Rightarrow> size_t \<Rightarrow> MemoryPlanner" where
  "allocate_buffer p sz = p\<lparr>buffer := Some sz, buffers_acquired := buffers_acquired p @ [sz]\<rparr>"

text \<open>The inner loop of \<^verbatim>\<open>allocate\<close>: every tensor of a cluster gets the same pointer and size.\<close>

fun bind_cluster :: "slot list \<Rightarrow> data_ptr \<Rightarrow> size_t \<Rightarrow> size_t \<times> heap \<Rightarrow> size_t \<times> heap" where
  "bind_cluster [] src tensor_size (reused, h) = (reused, h)"
| "bind_cluster (t # ts) src tensor_size (reused, h) =
     bind_cluster ts src tensor_size
       (reused + 1, set_storage h t \<lparr>st_nbytes = tensor_size, st_data = src\<rparr>)"

text \<open>
  The outer loop of \<^verbatim>\<open>allocate\<close>. \<open>dbg\<close> says whether \<^verbatim>\<open>DCHECK\<close>s are compiled in
  (\<^verbatim>\<open>NDEBUG\<close> undefined); \<open>mb\<close> is \<^verbatim>\<open>managed_bytes_\<close>.
\<close>

fun allocate_loop ::
  "bool \<Rightarrow> size_t \<Rightarrow> (size_t \<times> slot list) list \<Rightarrow> size_t \<times> size_t \<times> heap
     \<Rightarrow> error + (size_t \<times> size_t \<times> heap)" where
  "allocate_loop dbg mb [] st = Inr st"
| "allocate_loop dbg mb ((tensor_size, tensors) # ms) (offset, reused, h) =
     (if tensor_size = 0 then allocate_loop dbg mb ms (offset, reused, h)
      else if dbg \<and> \<not> (offset + tensor_size \<le> mb) then Inl DCheckFailed
      else (case bind_cluster tensors (ArenaPtr offset) tensor_size (reused, h) of
              (reused', h') \<Rightarrow>
                allocate_loop dbg mb ms (offset + tensor_size, reused' - 1, h')))"

definition allocate :: "bool \<Rightarrow> MemoryPlanner \<Rightarrow> heap \<Rightarrow> error + (MemoryPlanner \<times> heap)" where
  "allocate dbg p h =
     (if managed_bytes p = 0 then Inr (p, h)
      else
        (let p1 = allocate_buffer p (managed_bytes p) in
         case allocate_loop dbg (managed_bytes p1) (managed_tensors p1) (0, 0, h) of
           Inl e \<Rightarrow> Inl e
         | Inr (offset, reused, h') \<Rightarrow>
             if dbg \<and> offset \<noteq> managed_bytes p1 then Inl DCheckFailed
             else Inr (p1\<lparr>reused_tensors := reused\<rparr>, h')))"

text \<open>
  The inner loop of \<^verbatim>\<open>deallocate\<close>: the aligned size of every tensor is read, its storage
  reset, and the maximum kept.
\<close>

fun dealloc_cluster :: "size_t \<Rightarrow> slot list \<Rightarrow> size_t \<times> heap \<Rightarrow> size_t \<times> heap" where
  "dealloc_cluster A [] (mx, h) = (mx, h)"
| "dealloc_cluster A (t # ts) (mx, h) =
     (let current_size = compute_aligned_tensor_size A (storage_nbytes h t)
      in dealloc_cluster A ts (max mx current_size, storage_reset h t))"

fun dealloc_loop ::
  "size_t \<Rightarrow> (size_t \<times> slot list) list \<Rightarrow> size_t \<times> heap
     \<Rightarrow> (size_t \<times> slot list) list \<times> size_t \<times> heap" where
  "dealloc_loop A [] (mb, h) = ([], mb, h)"
| "dealloc_loop A ((sz, tensors) # ms) (mb, h) =
     (case dealloc_cluster A tensors (sz, h) of
        (mx, h') \<Rightarrow>
          (case dealloc_loop A ms (mb + mx, h') of
             (ms', mb', h'') \<Rightarrow> ((mx, tensors) # ms', mb', h'')))"

fun reset_ivalues :: "slot list \<Rightarrow> heap \<Rightarrow> heap" where
  "reset_ivalues [] h = h"
| "reset_ivalues (iv # ivs) h = reset_ivalues ivs (h\<lparr>ivalues := (ivalues h)(iv := IVNone)\<rparr>)"

definition deallocate :: "size_t \<Rightarrow> MemoryPlanner \<Rightarrow> heap \<Rightarrow> MemoryPlanner \<times> heap" where
  "deallocate A p h =
     (case dealloc_loop A (managed_tensors p) (0, h) of
        (ms', mb', h') \<Rightarrow>
          (p\<lparr>managed_tensors := ms', managed_bytes := mb', buffer := None\<rparr>,
           reset_ivalues (unmanaged_ivalues p) h'))"

section \<open>Vocabulary for the planner's properties\<close>

text \<open>The clusters that \<^verbatim>\<open>allocate\<close> binds: those with a nonzero learned size.\<close>

definition nonzero_clusters :: "(size_t \<times> slot list) list \<Rightarrow> (size_t \<times> slot list) list" where
  "nonzero_clusters ms = filter (\<lambda>c. fst c \<noteq> 0) ms"

definition total_tensors :: "(size_t \<times> slot list) list \<Rightarrow> nat" where
  "total_tensors ms = sum_list (map (\<lambda>c. length (snd c)) ms)"

text \<open>
  The count as the specification words it: the tensors of all clusters, minus the number of
  clusters with a nonzero size. It is compared with what \<^verbatim>\<open>allocate\<close> records.
\<close>

definition reused_tensors_as_specified :: "(size_t \<times> slot list) list \<Rightarrow> size_t" where
  "reused_tensors_as_specified ms =
     word_of_nat (total_tensors ms) - word_of_nat (length (nonzero_clusters ms))"

text \<open>The storages reached from the tensors of a cluster.\<close>

definition cluster_storages :: "heap \<Rightarrow> slot list \<Rightarrow> addr set" where
  "cluster_storages h ts = tensor_storage h ` set ts"

text \<open>No storage is reached from two different clusters (within a cluster it may be).\<close>

fun clusters_disjoint :: "heap \<Rightarrow> (size_t \<times> slot list) list \<Rightarrow> bool" where
  "clusters_disjoint h [] = True"
| "clusters_disjoint h (c # ms) =
     ((\<forall>d \<in> set ms. cluster_storages h (snd c) \<inter> cluster_storages h (snd d) = {})
      \<and> clusters_disjoint h ms)"

text \<open>
  The states a planner goes through: as constructed (every learned size 0, nothing
  managed yet), after nodes ran (they change the heap, not the planner), after \<^verbatim>\<open>allocate\<close>,
  after \<^verbatim>\<open>deallocate\<close>.
\<close>

inductive planner_reachable :: "size_t \<Rightarrow> MemoryPlanner \<times> heap \<Rightarrow> bool" for A :: size_t where
  constructed:
    "\<lbrakk>\<forall>c \<in> set (managed_tensors p). fst c = 0; managed_bytes p = 0\<rbrakk>
      \<Longrightarrow> planner_reachable A (p, h)"
| nodes_ran:
    "planner_reachable A (p, h) \<Longrightarrow> planner_reachable A (p, h')"
| allocated:
    "\<lbrakk>planner_reachable A (p, h); allocate dbg p h = Inr (p', h')\<rbrakk>
      \<Longrightarrow> planner_reachable A (p', h')"
| deallocated:
    "planner_reachable A (p, h) \<Longrightarrow> planner_reachable A (deallocate A p h)"

text \<open>Every tensor of every cluster has a storage of zero bytes or of its cluster's learned size.\<close>

definition sizes_fit :: "heap \<Rightarrow> (size_t \<times> slot list) list \<Rightarrow> bool" where
  "sizes_fit h ms =
     (\<forall>c \<in> set ms. \<forall>t \<in> set (snd c). storage_nbytes h t = 0 \<or> storage_nbytes h t = fst c)"

text \<open>A size that \<^verbatim>\<open>compute_aligned_tensor_size\<close> leaves as it is.\<close>

definition aligned_size :: "size_t \<Rightarrow> size_t \<Rightarrow> bool" where
  "aligned_size A sz = (compute_aligned_tensor_size A sz = sz)"

section \<open>Graphs, processed nodes and the external collaborators\<close>

text \<open>
  A node of the graph: its kind, its ordered inputs and outputs, and what
  \<^verbatim>\<open>maybeSchema()\<close> returns (\<open>None\<close>: no schema; \<open>Some m\<close>: a schema with \<^verbatim>\<open>is_mutable() = m\<close>).
\<close>

record Node =
  n_kind :: string
  n_inputs :: "Value list"
  n_outputs :: "Value list"
  n_schema :: "bool option"

definition prim_Constant :: string where
  "prim_Constant = ''prim::Constant''"

text \<open>\<open>g_tensor_type v\<close> is \<^verbatim>\<open>v->type()->cast<TensorType>()\<close> being non-null.\<close>

record Graph =
  g_inputs :: "Value list"
  g_outputs :: "Value list"
  g_nodes :: "Node list"
  g_tensor_type :: "Value \<Rightarrow> bool"

datatype MemOverlapStatus = FULL | PARTIAL | NO | TOO_HARD

datatype dispatch = OutVariant | Native | Boxed

text \<open>
  What the embedded file calls but does not define, as parameters: the build mode
  (\<open>debug_build\<close>: \<^verbatim>\<open>NDEBUG\<close> undefined), \<^verbatim>\<open>c10::gAlignment\<close>, the kernel library's predicates
  and whether it has an out variant, a native implementation or an operator for a node,
  \<^verbatim>\<open>at::get_overlap_status\<close> on the tensors of two slots, the effect of a node's kernel
  (whichever of \<^verbatim>\<open>fn_\<close>, \<^verbatim>\<open>native_fn_\<close> and the boxed operator was selected) on the heap with
  the error it may raise, the schema's \<^verbatim>\<open>checkAndNormalizeInputs\<close>, the module's own value,
  \<^verbatim>\<open>toIValue\<close> of a value, and whether the type of a value is a function type or a module.
\<close>

record Env =
  debug_build :: bool
  gAlignment :: size_t
  canReuseInputsOutputs :: "Node \<Rightarrow> bool"
  isOptimizableContainerType :: "Node \<Rightarrow> bool"
  get_overlap_status :: "heap \<Rightarrow> slot \<Rightarrow> slot \<Rightarrow> MemOverlapStatus"
  run_kernel :: "nat \<Rightarrow> dispatch \<Rightarrow> heap \<Rightarrow> heap \<times> error option"
  checkAndNormalizeInputs :: "IValue list \<Rightarrow> (string \<times> IValue) list \<Rightarrow> error + IValue list"
  module_ivalue :: IValue
  getOutOfPlaceOperation :: "Node \<Rightarrow> bool"
  getNativeOperation :: "Node \<Rightarrow> bool"
  hasOperator :: "Node \<Rightarrow> bool"
  toIValue :: "Value \<Rightarrow> IValue option"
  is_function_type :: "Value \<Rightarrow> bool"
  is_module_type :: "Value \<Rightarrow> bool"

text \<open>
  A processed node of a runtime: its input pointers are all set. The node at index \<open>idx\<close>
  owns the slots \<open>OutSlot idx i\<close>, one for each output of its graph node.
\<close>

record ProcessedNode =
  pn_node :: Node
  pn_inputs :: "slot list"
  pn_dispatch :: dispatch

definition pn_outputs :: "nat \<Rightarrow> ProcessedNode \<Rightarrow> slot list" where
  "pn_outputs idx pn = map (OutSlot idx) [0 ..< length (n_outputs (pn_node pn))]"

definition has_out_variant :: "ProcessedNode \<Rightarrow> bool" where
  "has_out_variant pn = (pn_dispatch pn = OutVariant)"

text \<open>The module's template of a node: a null input pointer is \<open>None\<close>.\<close>

record NodeTemplate =
  nt_node :: Node
  nt_inputs :: "slot option list"
  nt_dispatch :: dispatch

text \<open>
  The constructor of \<^verbatim>\<open>ProcessedNode\<close>: an out variant if enabled and known, else a native
  implementation, else the operator of the node, which must exist.
\<close>

definition ProcessedNode_ctor :: "Env \<Rightarrow> Node \<Rightarrow> slot option list \<Rightarrow> bool \<Rightarrow> error + NodeTemplate" where
  "ProcessedNode_ctor env node inputs use_out_variant =
     (if use_out_variant \<and> getOutOfPlaceOperation env node
      then Inr \<lparr>nt_node = node, nt_inputs = inputs, nt_dispatch = OutVariant\<rparr>
      else if getNativeOperation env node
      then Inr \<lparr>nt_node = node, nt_inputs = inputs, nt_dispatch = Native\<rparr>
      else if hasOperator env node
      then Inr \<lparr>nt_node = node, nt_inputs = inputs, nt_dispatch = Boxed\<rparr>
      else Inl (TorchCheckFailed ''no operator for the node''))"

subsection \<open>ProcessedNode::verify\_outputs\_not\_overlapping\_with\_immutable\_inputs\<close>

fun some_output_overlaps ::
  "(heap \<Rightarrow> slot \<Rightarrow> slot \<Rightarrow> MemOverlapStatus) \<Rightarrow> heap \<Rightarrow> slot \<Rightarrow> slot list \<Rightarrow> bool" where
  "some_output_overlaps ovl h i [] = False"
| "some_output_overlaps ovl h i (out # outs) =
     (if \<not> isTensor (ivalues h out) then some_output_overlaps ovl h i outs
      else if ovl h i out \<noteq> NO then True
      else some_output_overlaps ovl h i outs)"

fun some_input_overlaps ::
  "(heap \<Rightarrow> slot \<Rightarrow> slot \<Rightarrow> MemOverlapStatus) \<Rightarrow> heap \<Rightarrow> slot list \<Rightarrow> slot list \<Rightarrow> bool" where
  "some_input_overlaps ovl h [] outs = False"
| "some_input_overlaps ovl h (i # ins) outs =
     (if \<not> isTensor (ivalues h i) then some_input_overlaps ovl h ins outs
      else if some_output_overlaps ovl h i outs then True
      else some_input_overlaps ovl h ins outs)"

definition verify_outputs_not_overlapping_with_immutable_inputs ::
  "Env \<Rightarrow> heap \<Rightarrow> nat \<Rightarrow> ProcessedNode \<Rightarrow> bool" where
  "verify_outputs_not_overlapping_with_immutable_inputs env h idx pn =
     (case n_schema (pn_node pn) of
        None \<Rightarrow> True
      | Some is_mutable \<Rightarrow>
          if is_mutable then True
          else \<not> some_input_overlaps (get_overlap_status env) h (pn_inputs pn) (pn_outputs idx pn))"

text \<open>
  \<^verbatim>\<open>ProcessedNode::run\<close>: the \<^verbatim>\<open>DCHECK\<close> of debug builds, then the selected kernel. The boxed
  path's stack is built and unpacked inside \<open>run_kernel\<close>.
\<close>

definition ProcessedNode_run :: "Env \<Rightarrow> nat \<Rightarrow> ProcessedNode \<Rightarrow> heap \<Rightarrow> heap \<times> error option" where
  "ProcessedNode_run env idx pn h =
     (if debug_build env \<and> \<not> verify_outputs_not_overlapping_with_immutable_inputs env h idx pn
      then (h, Some DCheckFailed)
      else run_kernel env idx (pn_dispatch pn) h)"

fun run_nodes :: "Env \<Rightarrow> nat \<Rightarrow> ProcessedNode list \<Rightarrow> heap \<Rightarrow> heap \<times> error option" where
  "run_nodes env idx [] h = (h, None)"
| "run_nodes env idx (pn # pns) h =
     (case ProcessedNode_run env idx pn h of
        (h', Some e) \<Rightarrow> (h', Some e)
      | (h', None) \<Rightarrow> run_nodes env (Suc idx) pns h')"

section \<open>StaticModule and StaticRuntime\<close>

text \<open>
  Modelled from the spec: the sentinels of a \<^verbatim>\<open>DefInfo\<close> are declared outside the embedded
  file; section 3 of the specification gives -1 for an input and -2 for a constant.
\<close>

definition INPUT_VALUE :: int where "INPUT_VALUE = - 1"
definition CONSTANT_VALUE :: int where "CONSTANT_VALUE = - 2"

record StaticModule =
  sm_opts :: StaticModuleOptions
  sm_graph :: Graph
  sm_constants :: "IValue list"
  sm_nodes :: "NodeTemplate list"
  sm_index_map :: "nat \<Rightarrow> (int \<times> int) list option"
  sm_output_indices :: "(int \<times> int) list"
  sm_external_values :: "Value set"
  sm_values_share_same_storage :: "Value \<Rightarrow> Value list option"
  sm_first_input_is_self :: bool
  sm_schema :: "string list option"

definition num_outputs :: "StaticModule \<Rightarrow> nat" where
  "num_outputs sm = length (g_outputs (sm_graph sm))"

definition num_inputs :: "StaticModule \<Rightarrow> nat" where
  "num_inputs sm = length (g_inputs (sm_graph sm))"

text \<open>\<open>rt_leak_checks\<close> is a ghost field: how often \<^verbatim>\<open>check_for_memory_leak\<close> was entered.\<close>

record StaticRuntime =
  rt_module :: StaticModule
  rt_inputs_size :: nat
  rt_nodes :: "ProcessedNode list"
  rt_outputs :: "slot list"
  rt_planner :: "MemoryPlanner option"
  rt_heap :: heap
  rt_leak_checks :: nat

text \<open>
  The address a \<^verbatim>\<open>DefInfo\<close> resolves to, as in both loops of the runtime's constructor. The
  source indexes its vectors with the \<^verbatim>\<open>int\<close>s unchecked; a negative index is the error
  \<open>OutOfRange\<close> here.
\<close>

definition resolve_def :: "int \<times> int \<Rightarrow> error + slot" where
  "resolve_def d =
     (case d of (node_idx, out_idx) \<Rightarrow>
        if out_idx < 0 then Inl OutOfRange
        else if node_idx = INPUT_VALUE then Inr (InputSlot (nat out_idx))
        else if node_idx = CONSTANT_VALUE then Inr (ConstSlot (nat out_idx))
        else if node_idx < 0 then Inl OutOfRange
        else Inr (OutSlot (nat node_idx) (nat out_idx)))"

text \<open>One null input pointer of node \<open>idx\<close>, at position \<open>i\<close>.\<close>

definition hook_up_input :: "Env \<Rightarrow> (int \<times> int) list option \<Rightarrow> nat \<Rightarrow> error + slot" where
  "hook_up_input env defs i =
     (case defs of
        None \<Rightarrow> Inl OutOfRange
      | Some ds \<Rightarrow>
          if \<not> i < length ds then Inl OutOfRange
          else if debug_build env \<and> \<not> (0 \<le> snd (ds ! i)) then Inl DCheckFailed
          else if debug_build env \<and> fst (ds ! i) \<noteq> INPUT_VALUE
                  \<and> fst (ds ! i) \<noteq> CONSTANT_VALUE \<and> \<not> (0 \<le> fst (ds ! i))
          then Inl DCheckFailed
          else resolve_def (ds ! i))"

fun hook_up_inputs :: "Env \<Rightarrow> (int \<times> int) list option \<Rightarrow> nat \<Rightarrow> slot option list \<Rightarrow> error + slot list" where
  "hook_up_inputs env defs i [] = Inr []"
| "hook_up_inputs env defs i (inp # inps) =
     (case (case inp of Some s \<Rightarrow> Inr s | None \<Rightarrow> hook_up_input env defs i) of
        Inl e \<Rightarrow> Inl e
      | Inr s \<Rightarrow>
          (case hook_up_inputs env defs (Suc i) inps of
             Inl e \<Rightarrow> Inl e
           | Inr ss \<Rightarrow> Inr (s # ss)))"

fun resolve_outputs :: "(int \<times> int) list \<Rightarrow> error + slot list" where
  "resolve_outputs [] = Inr []"
| "resolve_outputs (d # ds) =
     (case resolve_def d of
        Inl e \<Rightarrow> Inl e
      | Inr s \<Rightarrow> (case resolve_outputs ds of Inl e \<Rightarrow> Inl e | Inr ss \<Rightarrow> Inr (s # ss)))"

fun copy_nodes :: "Env \<Rightarrow> StaticModule \<Rightarrow> nat \<Rightarrow> NodeTemplate list \<Rightarrow> error + ProcessedNode list" where
  "copy_nodes env sm idx [] = Inr []"
| "copy_nodes env sm idx (n_ref # rest) =
     (case hook_up_inputs env (sm_index_map sm idx) 0 (nt_inputs n_ref) of
        Inl e \<Rightarrow> Inl e
      | Inr ins \<Rightarrow>
          (case copy_nodes env sm (Suc idx) rest of
             Inl e \<Rightarrow> Inl e
           | Inr ns \<Rightarrow>
               Inr (\<lparr>pn_node = nt_node n_ref, pn_inputs = ins, pn_dispatch = nt_dispatch n_ref\<rparr> # ns)))"

text \<open>
  A fresh heap: the inputs and the nodes' outputs hold none, the constants the module's
  values. \<open>h0\<close> gives the storages.
\<close>

definition fresh_ivalues :: "StaticModule \<Rightarrow> slot \<Rightarrow> IValue" where
  "fresh_ivalues sm s =
     (case s of
        ConstSlot i \<Rightarrow> (if i < length (sm_constants sm) then sm_constants sm ! i else IVNone)
      | _ \<Rightarrow> IVNone)"

text \<open>
  \<^verbatim>\<open>StaticRuntime::StaticRuntime\<close>. The planner is a \<^verbatim>\<open>unique_ptr\<close> that the constructor leaves
  null.
\<close>

definition StaticRuntime_ctor :: "Env \<Rightarrow> heap \<Rightarrow> StaticModule \<Rightarrow> error + StaticRuntime" where
  "StaticRuntime_ctor env h0 sm =
     (case copy_nodes env sm 0 (sm_nodes sm) of
        Inl e \<Rightarrow> Inl e
      | Inr ns \<Rightarrow>
          (case resolve_outputs (sm_output_indices sm) of
             Inl e \<Rightarrow> Inl e
           | Inr outs \<Rightarrow>
               Inr \<lparr>rt_module = sm,
                    rt_inputs_size = num_inputs sm,
                    rt_nodes = ns,
                    rt_outputs = outs,
                    rt_planner = None,
                    rt_heap = h0\<lparr>ivalues := fresh_ivalues sm\<rparr>,
                    rt_leak_checks = 0\<rparr>))"

subsection \<open>StaticRuntime::set\_inputs\<close>

text \<open>
  \<^verbatim>\<open>Input(i) = v\<close> for the values of a list, from index \<open>i\<close> on. \<^verbatim>\<open>inputs_[i]\<close> is unchecked in
  the source; a write past the end is the error \<open>OutOfRange\<close> here.
\<close>

fun write_inputs :: "nat \<Rightarrow> nat \<Rightarrow> IValue list \<Rightarrow> heap \<Rightarrow> heap \<times> error option" where
  "write_inputs n i [] h = (h, None)"
| "write_inputs n i (v # vs) h =
     (if i < n then write_inputs n (Suc i) vs (h\<lparr>ivalues := (ivalues h)(InputSlot i := v)\<rparr>)
      else (h, Some OutOfRange))"

definition set_inputs ::
  "Env \<Rightarrow> StaticRuntime \<Rightarrow> IValue list \<Rightarrow> (string \<times> IValue) list \<Rightarrow> StaticRuntime \<times> error option" where
  "set_inputs env rt args kwargs =
     (let sm = rt_module rt; n = rt_inputs_size rt in
      if kwargs \<noteq> [] then
        (if sm_schema sm = None then (rt, Some (TorchCheckFailed ''Schema is not available.''))
         else
           (case checkAndNormalizeInputs env
                   ((if sm_first_input_is_self sm then [module_ivalue env] else []) @ args) kwargs of
              Inl e \<Rightarrow> (rt, Some e)
            | Inr stack \<Rightarrow>
                if debug_build env \<and> n \<noteq> length stack then (rt, Some DCheckFailed)
                else (case write_inputs n 0 stack (rt_heap rt) of
                        (h, r) \<Rightarrow> (rt\<lparr>rt_heap := h\<rparr>, r))))
      else if sm_first_input_is_self sm then
        (case write_inputs n 0 [module_ivalue env] (rt_heap rt) of
           (h, Some e) \<Rightarrow> (rt\<lparr>rt_heap := h\<rparr>, Some e)
         | (h, None) \<Rightarrow>
             if debug_build env \<and> n \<noteq> length args + 1 then (rt\<lparr>rt_heap := h\<rparr>, Some DCheckFailed)
             else (case write_inputs n 1 args h of
                     (h', r) \<Rightarrow> (rt\<lparr>rt_heap := h'\<rparr>, r)))
      else
        (if debug_build env \<and> n \<noteq> length args then (rt, Some DCheckFailed)
         else (case write_inputs n 0 args (rt_heap rt) of
                 (h, r) \<Rightarrow> (rt\<lparr>rt_heap := h\<rparr>, r))))"

text \<open>
  Modelled from the spec: \<^verbatim>\<open>clean_up_input_ivalues\<close> is defined outside the embedded file;
  it resets every input slot to none (spec 4.4, step 5).
\<close>

definition clean_up_input_ivalues :: "StaticRuntime \<Rightarrow> StaticRuntime" where
  "clean_up_input_ivalues rt =
     rt\<lparr>rt_heap := reset_ivalues (map InputSlot [0 ..< rt_inputs_size rt]) (rt_heap rt)\<rparr>"

subsection \<open>The constructor of MemoryPlanner\<close>

text \<open>The outputs of the nodes with their slots, in the order of the two nested loops.\<close>

fun node_output_slots :: "nat \<Rightarrow> ProcessedNode list \<Rightarrow> (ProcessedNode \<times> slot \<times> Value) list" where
  "node_output_slots idx [] = []"
| "node_output_slots idx (pn # pns) =
     map (\<lambda>i. (pn, OutSlot idx i, n_outputs (pn_node pn) ! i)) [0 ..< length (n_outputs (pn_node pn))]
     @ node_output_slots (Suc idx) pns"

definition managed_tensor_values_of ::
  "Graph \<Rightarrow> Value set \<Rightarrow> bool \<Rightarrow> ProcessedNode list \<Rightarrow> Value list" where
  "managed_tensor_values_of g external_values use_out_variant pns =
     (if use_out_variant then
        map (\<lambda>(pn, s, out_v). out_v)
          (filter (\<lambda>(pn, s, out_v). has_out_variant pn \<and> out_v \<notin> external_values
                      \<and> g_tensor_type g out_v)
             (node_output_slots 0 pns))
      else [])"

definition leaked_values_of ::
  "Env \<Rightarrow> Graph \<Rightarrow> Value set \<Rightarrow> bool \<Rightarrow> ProcessedNode list \<Rightarrow> Value list" where
  "leaked_values_of env g external_values use_out_variant pns =
     (if use_out_variant then
        map (\<lambda>(pn, s, out_v). out_v)
          (filter (\<lambda>(pn, s, out_v). has_out_variant pn \<and> out_v \<notin> external_values
                      \<and> \<not> g_tensor_type g out_v \<and> isOptimizableContainerType env (pn_node pn))
             (node_output_slots 0 pns))
      else [])"

text \<open>
  \<^verbatim>\<open>assign_storage_to_managed_tensors\<close>: the first managed tensor of a cluster opens an entry of
  learned size 0 and gives its index to every value of its cluster; the later ones join it.
\<close>

fun assign_storage_to_managed_tensors ::
  "heap \<Rightarrow> Value list \<Rightarrow> (Value \<Rightarrow> Value list option) \<Rightarrow> (ProcessedNode \<times> slot \<times> Value) list
     \<Rightarrow> (Value \<Rightarrow> nat option) \<times> (size_t \<times> slot list) list
     \<Rightarrow> error + (size_t \<times> slot list) list" where
  "assign_storage_to_managed_tensors h managed same_storage [] (value_to_storage_idx, ms) = Inr ms"
| "assign_storage_to_managed_tensors h managed same_storage ((pn, s, val) # rest)
       (value_to_storage_idx, ms) =
     (if val \<in> set managed then
        (if \<not> isTensor (ivalues h s) then Inl (TorchCheckFailed ''ival.isTensor()'')
         else
           (case value_to_storage_idx val of
              Some k \<Rightarrow>
                assign_storage_to_managed_tensors h managed same_storage rest
                  (value_to_storage_idx, ms[k := (fst (ms ! k), snd (ms ! k) @ [s])])
            | None \<Rightarrow>
                (let ms' = ms @ [(0, [s])] in
                 case same_storage val of
                   Some vs \<Rightarrow>
                     assign_storage_to_managed_tensors h managed same_storage rest
                       (fold (\<lambda>v m. m(v \<mapsto> length ms' - 1)) vs value_to_storage_idx, ms')
                 | None \<Rightarrow>
                     assign_storage_to_managed_tensors h managed same_storage rest
                       (value_to_storage_idx, ms'))))
      else assign_storage_to_managed_tensors h managed same_storage rest (value_to_storage_idx, ms))"

text \<open>
  \<^verbatim>\<open>MemoryPlanner::MemoryPlanner\<close>. The source collects the unmanaged slots in an unordered set
  and copies it to a vector; here they stand in the order of the nodes.
\<close>

definition MemoryPlanner_ctor ::
  "Env \<Rightarrow> StaticRuntime \<Rightarrow> (Value \<Rightarrow> Value list option) \<Rightarrow> Value set \<Rightarrow> bool \<Rightarrow> bool
     \<Rightarrow> error + MemoryPlanner" where
  "MemoryPlanner_ctor env rt value_to_same_storage_values external_values
       use_out_variant manage_graph_output_memory =
     (let g = sm_graph (rt_module rt);
          outs = node_output_slots 0 (rt_nodes rt);
          managed_tensor_values = managed_tensor_values_of g external_values use_out_variant (rt_nodes rt);
          leaked_values = leaked_values_of env g external_values use_out_variant (rt_nodes rt);
          unmanaged =
            map (\<lambda>(pn, s, out_v). s)
              (filter (\<lambda>(pn, s, out_v). out_v \<notin> set managed_tensor_values \<and> out_v \<notin> set leaked_values) outs);
          managed_tensor_values' = filter (\<lambda>v. v \<notin> set (g_outputs g)) managed_tensor_values;
          unmanaged' = remdups (filter (\<lambda>s. s \<notin> set (rt_outputs rt)) unmanaged)
      in case (if use_out_variant
               then assign_storage_to_managed_tensors (rt_heap rt) managed_tensor_values'
                      value_to_same_storage_values outs (Map.empty, [])
               else Inr []) of
           Inl e \<Rightarrow> Inl e
         | Inr ms \<Rightarrow>
             Inr \<lparr>managed_tensors = ms, unmanaged_ivalues = unmanaged', managed_bytes = 0,
                  reused_tensors = 0, buffer = None, buffers_acquired = []\<rparr>)"

subsection \<open>StaticRuntime::check\_for\_memory\_leak\<close>

fun check_node_outputs ::
  "Env \<Rightarrow> StaticRuntime \<Rightarrow> bool \<Rightarrow> (ProcessedNode \<times> slot \<times> Value) list \<Rightarrow> error + unit" where
  "check_node_outputs env rt output_returned [] = Inr ()"
| "check_node_outputs env rt output_returned ((pnode, ival, val) # rest) =
     (let h = rt_heap rt; v = ivalues h ival in
      case (if ival \<notin> set (rt_outputs rt) then
              (if \<not> isNone v then
                 (case TORCH_CHECK (isTensor v \<or> isOptimizableContainerType env (pn_node pnode))
                         ''Output was not cleaned up'' of
                    Inl e \<Rightarrow> Inl e
                  | Inr _ \<Rightarrow>
                      if isTensor v \<and> tensor_defined v
                      then TORCH_CHECK (st_data (storages h (tensor_storage h ival)) = NullPtr)
                             ''Output was not cleaned up''
                      else Inr ())
               else Inr ())
            else (if output_returned then TORCH_CHECK (isNone v) ''Output was not cleaned up''
                  else Inr ())) of
        Inl e \<Rightarrow> Inl e
      | Inr _ \<Rightarrow> check_node_outputs env rt output_returned rest)"

fun check_inputs_none :: "heap \<Rightarrow> nat list \<Rightarrow> error + unit" where
  "check_inputs_none h [] = Inr ()"
| "check_inputs_none h (i # is) =
     (case TORCH_CHECK (isNone (ivalues h (InputSlot i))) ''Input was not cleaned up'' of
        Inl e \<Rightarrow> Inl e
      | Inr _ \<Rightarrow> check_inputs_none h is)"

definition check_for_memory_leak :: "Env \<Rightarrow> StaticRuntime \<Rightarrow> bool \<Rightarrow> error + unit" where
  "check_for_memory_leak env rt output_returned =
     (if \<not> cleanup_activations (sm_opts (rt_module rt)) then Inr ()
      else
        (case check_inputs_none (rt_heap rt) [0 ..< rt_inputs_size rt] of
           Inl e \<Rightarrow> Inl e
         | Inr _ \<Rightarrow>
             check_node_outputs env rt output_returned (node_output_slots 0 (rt_nodes rt))))"

subsection \<open>StaticRuntime::operator()\<close>

text \<open>\<^verbatim>\<open>std::move(*outputs_[i])\<close>: the value leaves its slot, which then holds none.\<close>

definition move_out :: "heap \<Rightarrow> slot \<Rightarrow> IValue \<times> heap" where
  "move_out h s = (ivalues h s, h\<lparr>ivalues := (ivalues h)(s := IVNone)\<rparr>)"

fun move_outputs :: "slot list \<Rightarrow> nat \<Rightarrow> nat \<Rightarrow> heap \<Rightarrow> error + (IValue list \<times> heap)" where
  "move_outputs outs i 0 h = Inr ([], h)"
| "move_outputs outs i (Suc k) h =
     (if \<not> i < length outs then Inl OutOfRange
      else (case move_out h (outs ! i) of
              (v, h') \<Rightarrow>
                (case move_outputs outs (Suc i) k h' of
                   Inl e \<Rightarrow> Inl e
                 | Inr (vs, h'') \<Rightarrow> Inr (v # vs, h''))))"

text \<open>The first step of a run: \<^verbatim>\<open>if (planner_) planner_->allocate();\<close>\<close>

definition allocate_if_planned :: "Env \<Rightarrow> StaticRuntime \<Rightarrow> error + StaticRuntime" where
  "allocate_if_planned env rt =
     (case rt_planner rt of
        None \<Rightarrow> Inr rt
      | Some p \<Rightarrow>
          (case allocate (debug_build env) p (rt_heap rt) of
             Inl e \<Rightarrow> Inl e
           | Inr (p', h') \<Rightarrow> Inr (rt\<lparr>rt_planner := Some p', rt_heap := h'\<rparr>)))"

text \<open>The block under \<^verbatim>\<open>cleanup_activations\<close>: the planner is made on the first completion.\<close>

definition cleanup_after_run :: "Env \<Rightarrow> StaticRuntime \<Rightarrow> error + StaticRuntime" where
  "cleanup_after_run env rt =
     (let sm = rt_module rt in
      case (case rt_planner rt of
              Some p \<Rightarrow> Inr p
            | None \<Rightarrow>
                MemoryPlanner_ctor env rt (sm_values_share_same_storage sm) (sm_external_values sm)
                  (enable_out_variant (sm_opts sm)) (optimize_graph_output_memory (sm_opts sm))) of
        Inl e \<Rightarrow> Inl e
      | Inr p \<Rightarrow>
          (case deallocate (gAlignment env) p (rt_heap rt) of
             (p', h') \<Rightarrow>
               Inr (clean_up_input_ivalues (rt\<lparr>rt_planner := Some p', rt_heap := h'\<rparr>))))"

text \<open>
  What follows the cleanup: several outputs leave as a tuple at once; otherwise debug builds
  check for leaks, and the single output leaves.
\<close>

definition return_outputs :: "Env \<Rightarrow> StaticRuntime \<Rightarrow> StaticRuntime \<times> (error + IValue)" where
  "return_outputs env rt =
     (if num_outputs (rt_module rt) > 1 then
        (case move_outputs (rt_outputs rt) 0 (num_outputs (rt_module rt)) (rt_heap rt) of
           Inl e \<Rightarrow> (rt, Inl e)
         | Inr (vs, h) \<Rightarrow> (rt\<lparr>rt_heap := h\<rparr>, Inr (IVTuple vs)))
      else
        (let rt1 = (if debug_build env then rt\<lparr>rt_leak_checks := Suc (rt_leak_checks rt)\<rparr> else rt) in
         case (if debug_build env then check_for_memory_leak env rt False else Inr ()) of
           Inl e \<Rightarrow> (rt1, Inl e)
         | Inr _ \<Rightarrow>
             (case rt_outputs rt1 of
                [] \<Rightarrow> (rt1, Inl OutOfRange)
              | s # _ \<Rightarrow>
                  (case move_out (rt_heap rt1) s of
                     (v, h) \<Rightarrow> (rt1\<lparr>rt_heap := h\<rparr>, Inr v)))))"

definition invoke ::
  "Env \<Rightarrow> StaticRuntime \<Rightarrow> IValue list \<Rightarrow> (string \<times> IValue) list \<Rightarrow> StaticRuntime \<times> (error + IValue)" where
  "invoke env rt args kwargs =
     (case allocate_if_planned env rt of
        Inl e \<Rightarrow> (rt, Inl e)
      | Inr rt1 \<Rightarrow>
          (case set_inputs env rt1 args kwargs of
             (rt2, Some e) \<Rightarrow> (rt2, Inl e)
           | (rt2, None) \<Rightarrow>
               (case run_nodes env 0 (rt_nodes rt2) (rt_heap rt2) of
                  (h3, Some e) \<Rightarrow> (rt2\<lparr>rt_heap := h3\<rparr>, Inl e)
                | (h3, None) \<Rightarrow>
                    (case (if cleanup_activations (sm_opts (rt_module rt2))
                           then cleanup_after_run env (rt2\<lparr>rt_heap := h3\<rparr>)
                           else Inr (rt2\<lparr>rt_heap := h3\<rparr>)) of
                       Inl e \<Rightarrow> (rt2\<lparr>rt_heap := h3\<rparr>, Inl e)
                     | Inr rt4 \<Rightarrow> return_outputs env rt4))))"

section \<open>Alias and liveness analysis\<close>

text \<open>
  The alias database is built outside the embedded file; its three queries are parameters:
  \<^verbatim>\<open>mayAlias(a, b)\<close>, \<^verbatim>\<open>mayContainAlias(a, b)\<close> on two values, and \<^verbatim>\<open>mayContainAlias\<close> on
  two collections of values.
\<close>

record AliasDb =
  mayAlias :: "Value \<Rightarrow> Value \<Rightarrow> bool"
  mayContainAlias :: "Value \<Rightarrow> Value \<Rightarrow> bool"
  mayContainAliasSets :: "Value set \<Rightarrow> Value set \<Rightarrow> bool"

definition is_constant :: "Node \<Rightarrow> bool" where
  "is_constant n = (n_kind n = prim_Constant)"

definition constant_outputs :: "Graph \<Rightarrow> Value list" where
  "constant_outputs g = concat (map n_outputs (filter is_constant (g_nodes g)))"

definition non_constant_outputs :: "Graph \<Rightarrow> Value list" where
  "non_constant_outputs g = concat (map n_outputs (filter (\<lambda>n. \<not> is_constant n) (g_nodes g)))"

subsection \<open>GetAlwaysAliveValues\<close>

text \<open>The three seeding loops: inputs, outputs, outputs of constants.\<close>

definition always_alive_seed :: "Graph \<Rightarrow> Value set" where
  "always_alive_seed g = set (g_inputs g) \<union> set (g_outputs g) \<union> set (constant_outputs g)"

text \<open>The last loop: each output is tested against the set as it stands at that moment.\<close>

fun insert_aliases :: "AliasDb \<Rightarrow> Value list \<Rightarrow> Value set \<Rightarrow> Value set" where
  "insert_aliases db [] always_alive = always_alive"
| "insert_aliases db (v # vs) always_alive =
     insert_aliases db vs
       (if mayContainAliasSets db {v} always_alive then insert v always_alive else always_alive)"

definition GetAlwaysAliveValues :: "Graph \<Rightarrow> AliasDb \<Rightarrow> Value set" where
  "GetAlwaysAliveValues g db = insert_aliases db (non_constant_outputs g) (always_alive_seed g)"

subsection \<open>GetLivenessMap\<close>

type_synonym LivenessMap = "Value \<Rightarrow> Value set option"

text \<open>
  A \<^verbatim>\<open>const Node*\<close> is the position of the node in the graph; the return node, whose inputs
  are the graph's outputs, comes after the last. \<^verbatim>\<open>v->uses()\<close> is kept by the graph library:
  one use for every occurrence of \<open>v\<close> among the inputs of a node.
\<close>

definition uses :: "Graph \<Rightarrow> Value \<Rightarrow> nat list" where
  "uses g v =
     concat (map (\<lambda>(i, n). map (\<lambda>x. i) (filter (\<lambda>x. x = v) (n_inputs n)))
               (enumerate 0 (g_nodes g)))
     @ map (\<lambda>x. length (g_nodes g)) (filter (\<lambda>x. x = v) (g_outputs g))"

definition values_in_creation_order :: "Graph \<Rightarrow> Value list" where
  "values_in_creation_order g = concat (map n_outputs (g_nodes g))"

text \<open>
  \<^verbatim>\<open>values_to_idx_in_creation_order[v]\<close>: the index written last for \<open>v\<close>, and 0 (what
  \<^verbatim>\<open>operator[]\<close> inserts) for a value never written.
\<close>

definition creation_idx :: "Value list \<Rightarrow> Value \<Rightarrow> nat" where
  "creation_idx order v =
     (case filter (\<lambda>i. order ! i = v) (rev [0 ..< length order]) of
        [] \<Rightarrow> 0
      | i # _ \<Rightarrow> i)"

definition refined_aliases :: "AliasDb \<Rightarrow> Value list \<Rightarrow> Value \<Rightarrow> Value list" where
  "refined_aliases db order v =
     filter (\<lambda>alias_v. mayContainAlias db v alias_v) (drop (creation_idx order v) order)"

text \<open>
  The state of the traversal. \<^verbatim>\<open>live_values_use_chain\<close> is iterated, so it is a list of
  pairs with distinct keys; \<^verbatim>\<open>live_nodes_def_chain\<close> maps a node to the values it may use
  (empty for a node without an entry: an entry is made only to insert into it).
\<close>

record live_state =
  liveness_map :: LivenessMap
  live_values_use_chain :: "(Value \<times> nat set) list"
  live_nodes_def_chain :: "nat \<Rightarrow> Value list"

text \<open>The new value \<open>v\<close> overlaps every value that is live: an edge in both directions.\<close>

fun add_edges :: "Value \<Rightarrow> Value list \<Rightarrow> LivenessMap \<Rightarrow> error + LivenessMap" where
  "add_edges v [] lm = Inr lm"
| "add_edges v (live_v # ls) lm =
     (case lm v of
        None \<Rightarrow> Inl OutOfRange
      | Some s \<Rightarrow>
          (let lm1 = lm(v \<mapsto> insert live_v s) in
           case lm1 live_v of
             None \<Rightarrow> Inl OutOfRange
           | Some t \<Rightarrow> add_edges v ls (lm1(live_v \<mapsto> insert v t))))"

text \<open>The users of a value are recorded as uses of \<open>v\<close>.\<close>

fun add_uses :: "Value \<Rightarrow> nat list \<Rightarrow> live_state \<Rightarrow> error + live_state" where
  "add_uses v [] st = Inr st"
| "add_uses v (node # us) st =
     (case map_of (live_values_use_chain st) v of
        None \<Rightarrow> Inl OutOfRange
      | Some s \<Rightarrow>
          add_uses v us
            (st\<lparr>live_values_use_chain := AList.update v (insert node s) (live_values_use_chain st),
                live_nodes_def_chain :=
                  (live_nodes_def_chain st)(node := List.insert v (live_nodes_def_chain st node))\<rparr>))"

text \<open>
  \<^verbatim>\<open>add_live_value_fn\<close>, which calls itself on the refined aliases of its value. The first
  argument bounds the depth of the recursion.
\<close>

fun add_live_value_fn ::
    "nat \<Rightarrow> Graph \<Rightarrow> AliasDb \<Rightarrow> Value list \<Rightarrow> Value \<Rightarrow> live_state \<Rightarrow> error + live_state"
  and add_aliased_values ::
    "nat \<Rightarrow> Graph \<Rightarrow> AliasDb \<Rightarrow> Value list \<Rightarrow> Value \<Rightarrow> Value list \<Rightarrow> live_state \<Rightarrow> error + live_state"
where
  "add_live_value_fn 0 g db order v st = Inl OutOfFuel"
| "add_live_value_fn (Suc fuel) g db order v st =
     (if liveness_map st v \<noteq> None then Inr st
      else
        (case add_edges v (map fst (live_values_use_chain st)) ((liveness_map st)(v \<mapsto> {})) of
           Inl e \<Rightarrow> Inl e
         | Inr lm1 \<Rightarrow>
             (case add_uses v (uses g v)
                     (st\<lparr>liveness_map := lm1,
                         live_values_use_chain :=
                           (if uses g v \<noteq> [] then AList.update v {} (live_values_use_chain st)
                            else live_values_use_chain st)\<rparr>) of
                Inl e \<Rightarrow> Inl e
              | Inr st2 \<Rightarrow> add_aliased_values fuel g db order v (refined_aliases db order v) st2)))"
| "add_aliased_values fuel g db order v [] st = Inr st"
| "add_aliased_values fuel g db order v (aliased_v # rest) st =
     (case add_live_value_fn fuel g db order aliased_v st of
        Inl e \<Rightarrow> Inl e
      | Inr st1 \<Rightarrow>
          (case add_uses v (uses g aliased_v) st1 of
             Inl e \<Rightarrow> Inl e
           | Inr st2 \<Rightarrow> add_aliased_values fuel g db order v rest st2))"

text \<open>
  \<^verbatim>\<open>traverse_node_fn\<close>: the node is struck from the use chain of every value it may use; a
  value whose chain becomes empty is dead.
\<close>

fun traverse_node_fn ::
  "nat \<Rightarrow> Value list \<Rightarrow> (Value \<times> nat set) list \<times> Value list
     \<Rightarrow> error + ((Value \<times> nat set) list \<times> Value list)" where
  "traverse_node_fn node [] (chain, dead) = Inr (chain, dead)"
| "traverse_node_fn node (v # vs) (chain, dead) =
     (case map_of chain v of
        None \<Rightarrow> Inl OutOfRange
      | Some s \<Rightarrow>
          traverse_node_fn node vs
            (AList.update v (s - {node}) chain,
             if s - {node} = {} then dead @ [v] else dead))"

fun add_live_outputs ::
  "nat \<Rightarrow> Graph \<Rightarrow> AliasDb \<Rightarrow> Value list \<Rightarrow> Value set \<Rightarrow> Value list \<Rightarrow> live_state \<Rightarrow> error + live_state" where
  "add_live_outputs fuel g db order always_alive [] st = Inr st"
| "add_live_outputs fuel g db order always_alive (v # vs) st =
     (if v \<notin> always_alive then
        (case add_live_value_fn fuel g db order v st of
           Inl e \<Rightarrow> Inl e
         | Inr st1 \<Rightarrow> add_live_outputs fuel g db order always_alive vs st1)
      else add_live_outputs fuel g db order always_alive vs st)"

text \<open>The main loop, over the nodes with their positions.\<close>

fun liveness_scan ::
  "nat \<Rightarrow> Graph \<Rightarrow> AliasDb \<Rightarrow> Value list \<Rightarrow> Value set \<Rightarrow> (nat \<times> Node) list \<Rightarrow> live_state
     \<Rightarrow> error + live_state" where
  "liveness_scan fuel g db order always_alive [] st = Inr st"
| "liveness_scan fuel g db order always_alive ((i, node) # rest) st =
     (case add_live_outputs fuel g db order always_alive (n_outputs node) st of
        Inl e \<Rightarrow> Inl e
      | Inr st1 \<Rightarrow>
          (case traverse_node_fn i (live_nodes_def_chain st1 i) (live_values_use_chain st1, []) of
             Inl e \<Rightarrow> Inl e
           | Inr (chain, dead) \<Rightarrow>
               liveness_scan fuel g db order always_alive rest
                 (st1\<lparr>live_values_use_chain := fold AList.delete dead chain\<rparr>)))"

text \<open>The last loop: every output of a node overlaps every input of the node.\<close>

definition link_input_output :: "Value \<Rightarrow> Value \<Rightarrow> LivenessMap \<Rightarrow> LivenessMap" where
  "link_input_output inp out lm =
     (case (lm inp, lm out) of
        (Some a, Some b) \<Rightarrow>
          (let lm1 = lm(inp \<mapsto> insert out a) in
           case lm1 out of
             Some b' \<Rightarrow> lm1(out \<mapsto> insert inp b')
           | None \<Rightarrow> lm1)
      | _ \<Rightarrow> lm)"

definition link_inputs_outputs :: "Node list \<Rightarrow> LivenessMap \<Rightarrow> LivenessMap" where
  "link_inputs_outputs nodes lm =
     fold (\<lambda>node lm1.
             fold (\<lambda>inp lm2. fold (\<lambda>out lm3. link_input_output inp out lm3) (n_outputs node) lm2)
               (n_inputs node) lm1)
       nodes lm"

text \<open>
  \<^verbatim>\<open>GetLivenessMap\<close>. The recursion of \<^verbatim>\<open>add_live_value_fn\<close> enters a value once only, so
  one more than the number of values bounds its depth.
\<close>

definition GetLivenessMap :: "Graph \<Rightarrow> Value set \<Rightarrow> AliasDb \<Rightarrow> error + LivenessMap" where
  "GetLivenessMap g always_alive db =
     (let order = values_in_creation_order g in
      case liveness_scan (Suc (length order)) g db order always_alive (enumerate 0 (g_nodes g))
             \<lparr>liveness_map = Map.empty, live_values_use_chain = [],
              live_nodes_def_chain = (\<lambda>n. [])\<rparr> of
        Inl e \<Rightarrow> Inl e
      | Inr st \<Rightarrow>
          if \<forall>v \<in> set (map fst (live_values_use_chain st)). v \<in> always_alive
          then Inr (link_inputs_outputs (g_nodes g) (liveness_map st))
          else Inl (TorchCheckFailed ''always_alive.count(v.first)''))"

subsection \<open>GetMemoryPlanningCandidates\<close>

record scan_state =
  seen_values :: "Value set"
  all_values :: "Value list"
  can_reuse :: "Value set"
  cannot_reuse :: "Value set"

definition mark_reuse :: "bool \<Rightarrow> Value \<Rightarrow> scan_state \<Rightarrow> scan_state" where
  "mark_reuse can_reuse_inputs_outputs v st =
     (if can_reuse_inputs_outputs then st\<lparr>can_reuse := insert v (can_reuse st)\<rparr>
      else st\<lparr>cannot_reuse := insert v (cannot_reuse st)\<rparr>)"

fun scan_inputs :: "bool \<Rightarrow> Value list \<Rightarrow> scan_state \<Rightarrow> scan_state" where
  "scan_inputs c [] st = st"
| "scan_inputs c (v # vs) st =
     scan_inputs c vs
       (mark_reuse c v
          (if v \<notin> seen_values st
           then st\<lparr>all_values := all_values st @ [v], seen_values := insert v (seen_values st)\<rparr>
           else st))"

fun scan_outputs :: "bool \<Rightarrow> Value list \<Rightarrow> scan_state \<Rightarrow> scan_state" where
  "scan_outputs c [] st = st"
| "scan_outputs c (v # vs) st =
     scan_outputs c vs
       (mark_reuse c v
          (st\<lparr>all_values := all_values st @ [v], seen_values := insert v (seen_values st)\<rparr>))"

fun scan_nodes :: "(Node \<Rightarrow> bool) \<Rightarrow> Node list \<Rightarrow> scan_state \<Rightarrow> scan_state" where
  "scan_nodes canReuse [] st = st"
| "scan_nodes canReuse (n # ns) st =
     scan_nodes canReuse ns
       (scan_outputs (canReuse n) (n_outputs n) (scan_inputs (canReuse n) (n_inputs n) st))"

text \<open>The deterministic order: a value is taken at its first place in \<open>all_values\<close>.\<close>

fun pick_optimizable :: "Value list \<Rightarrow> Value set \<Rightarrow> Value list" where
  "pick_optimizable [] can = []"
| "pick_optimizable (v # vs) can =
     (if v \<in> can then v # pick_optimizable vs (can - {v}) else pick_optimizable vs can)"

definition GetMemoryPlanningCandidates :: "(Node \<Rightarrow> bool) \<Rightarrow> Graph \<Rightarrow> Value list \<times> Value list" where
  "GetMemoryPlanningCandidates canReuse g =
     (let st = scan_nodes canReuse (g_nodes g)
                 \<lparr>seen_values = {}, all_values = [], can_reuse = {}, cannot_reuse = {}\<rparr>
      in (pick_optimizable (all_values st) (can_reuse st - cannot_reuse st), all_values st))"

subsection \<open>GenerateSameStorageValues\<close>

text \<open>
  \<^verbatim>\<open>same_storage_values\<close> is iterated, so it is a list of pairs with distinct keys, in the
  order in which the keys were inserted (the source's order is that of an unordered map).
\<close>

type_synonym storage_map = "(Value \<times> Value list) list"

text \<open>The values of two lists, each once, in the order of their first occurrence.\<close>

fun unique_values :: "Value list \<Rightarrow> Value list \<Rightarrow> Value list" where
  "unique_values [] acc = acc"
| "unique_values (v # vs) acc =
     (if v \<in> set acc then unique_values vs acc else unique_values vs (acc @ [v]))"

definition share_storage_fn :: "bool \<Rightarrow> Value \<Rightarrow> Value \<Rightarrow> storage_map \<Rightarrow> error + storage_map" where
  "share_storage_fn dbg new_v old_v m =
     (if new_v = old_v then Inr m
      else if dbg \<and> map_of m old_v = None then Inl DCheckFailed
      else
        (case map_of m old_v of
           None \<Rightarrow> Inl OutOfRange
         | Some olds \<Rightarrow>
             (case map_of m new_v of
                None \<Rightarrow> Inl OutOfRange
              | Some news \<Rightarrow>
                  (let values = unique_values news (unique_values olds [])
                   in Inr (fold (\<lambda>v m'. AList.update v values m') values m)))))"

text \<open>The inner loop of the initialisation: \<open>v\<close> joins every cluster with a key it may alias.\<close>

fun merge_aliases :: "bool \<Rightarrow> AliasDb \<Rightarrow> Value \<Rightarrow> Value list \<Rightarrow> storage_map \<Rightarrow> error + storage_map" where
  "merge_aliases dbg db v [] m = Inr m"
| "merge_aliases dbg db v (p # ps) m =
     (if mayAlias db p v then
        (case share_storage_fn dbg v p m of
           Inl e \<Rightarrow> Inl e
         | Inr m' \<Rightarrow> merge_aliases dbg db v ps m')
      else merge_aliases dbg db v ps m)"

fun init_same_storage ::
  "bool \<Rightarrow> AliasDb \<Rightarrow> Value set \<Rightarrow> Value list \<Rightarrow> storage_map \<Rightarrow> error + storage_map" where
  "init_same_storage dbg db always_alive [] m = Inr m"
| "init_same_storage dbg db always_alive (v # vs) m =
     (let m1 = (if map_of m v = None then m @ [(v, [v])] else m) in
      if v \<in> always_alive then init_same_storage dbg db always_alive vs m1
      else
        (case merge_aliases dbg db v (map fst m1) m1 of
           Inl e \<Rightarrow> Inl e
         | Inr m2 \<Rightarrow> init_same_storage dbg db always_alive vs m2))"

definition compute_liveset_fn ::
  "Value set \<Rightarrow> LivenessMap \<Rightarrow> storage_map \<Rightarrow> Value \<Rightarrow> error + Value set" where
  "compute_liveset_fn always_alive alive_during m v =
     (case map_of m v of
        None \<Rightarrow> Inl OutOfRange
      | Some svs \<Rightarrow>
          Inr ((\<Union>sv \<in> set svs. case alive_during sv of Some l \<Rightarrow> l | None \<Rightarrow> {}) \<union> always_alive))"

definition intersect_fn :: "storage_map \<Rightarrow> Value set \<Rightarrow> Value \<Rightarrow> error + bool" where
  "intersect_fn m live s =
     (case map_of m s of
        None \<Rightarrow> Inl OutOfRange
      | Some svs \<Rightarrow> Inr (\<exists>v \<in> set svs. v \<in> live))"

text \<open>The loop over the values seen so far: \<open>v\<close> joins the first cluster that fits, if any.\<close>

fun find_cluster :: "bool \<Rightarrow> Value set \<Rightarrow> Value \<Rightarrow> Value list \<Rightarrow> storage_map \<Rightarrow> error + storage_map" where
  "find_cluster dbg live v [] m = Inr m"
| "find_cluster dbg live v (s # ss) m =
     (case intersect_fn m live s of
        Inl e \<Rightarrow> Inl e
      | Inr intersects \<Rightarrow>
          if \<not> intersects then share_storage_fn dbg v s m
          else find_cluster dbg live v ss m)"

fun reuse_storage ::
  "bool \<Rightarrow> LivenessMap \<Rightarrow> Value set \<Rightarrow> Value list \<Rightarrow> Value list \<times> storage_map
     \<Rightarrow> error + (Value list \<times> storage_map)" where
  "reuse_storage dbg alive_during always_alive [] (seen, m) = Inr (seen, m)"
| "reuse_storage dbg alive_during always_alive (v # vs) (seen, m) =
     (if v \<in> always_alive then reuse_storage dbg alive_during always_alive vs (seen, m)
      else
        (case compute_liveset_fn always_alive alive_during m v of
           Inl e \<Rightarrow> Inl e
         | Inr live \<Rightarrow>
             (case find_cluster dbg live v seen m of
                Inl e \<Rightarrow> Inl e
              | Inr m' \<Rightarrow> reuse_storage dbg alive_during always_alive vs (seen @ [v], m'))))"

definition GenerateSameStorageValues ::
  "bool \<Rightarrow> LivenessMap \<Rightarrow> Value set \<Rightarrow> Value list \<times> Value list \<Rightarrow> AliasDb \<Rightarrow> error + storage_map" where
  "GenerateSameStorageValues dbg alive_during always_alive optimizable db =
     (case init_same_storage dbg db always_alive (snd optimizable) [] of
        Inl e \<Rightarrow> Inl e
      | Inr m \<Rightarrow>
          (case reuse_storage dbg alive_during always_alive (fst optimizable) ([], m) of
             Inl e \<Rightarrow> Inl e
           | Inr (seen, m') \<Rightarrow> Inr m'))"

text \<open>
  The end of \<^verbatim>\<open>StaticModule\<close>'s constructor: the always-alive values, and with
  \<^verbatim>\<open>optimize_memory\<close> the clusters.
\<close>

definition prepare_memory_planning ::
  "Env \<Rightarrow> StaticModuleOptions \<Rightarrow> Graph \<Rightarrow> AliasDb \<Rightarrow> error + (Value set \<times> storage_map)" where
  "prepare_memory_planning env opts g db =
     (let external_values = GetAlwaysAliveValues g db in
      if optimize_memory opts then
        (case GetLivenessMap g external_values db of
           Inl e \<Rightarrow> Inl e
         | Inr lm \<Rightarrow>
             (case GenerateSameStorageValues (debug_build env) lm external_values
                     (GetMemoryPlanningCandidates (canReuseInputsOutputs env) g) db of
                Inl e \<Rightarrow> Inl e
              | Inr m \<Rightarrow> Inr (external_values, m)))
      else Inr (external_values, []))"

section \<open>Vocabulary for the properties of the analysis\<close>

text \<open>The values a node reads or produces.\<close>

definition touched :: "Node \<Rightarrow> Value set" where
  "touched n = set (n_inputs n) \<union> set (n_outputs n)"

text \<open>The values recorded as live together with \<open>u\<close>; none for a value without an entry.\<close>

definition live_with :: "LivenessMap \<Rightarrow> Value \<Rightarrow> Value set" where
  "live_with lm u = (case lm u of Some s \<Rightarrow> s | None \<Rightarrow> {})"

definition no_edge :: "LivenessMap \<Rightarrow> Value \<Rightarrow> Value \<Rightarrow> bool" where
  "no_edge lm u v = (v \<notin> live_with lm u \<and> u \<notin> live_with lm v)"

text \<open>An edge recorded for one value is recorded for the other too.\<close>

definition lm_symmetric :: "LivenessMap \<Rightarrow> bool" where
  "lm_symmetric lm = (\<forall>a b. b \<in> live_with lm a \<longrightarrow> a \<in> live_with lm b)"

text \<open>The cluster of a value in the result of the planner.\<close>

definition cluster_of :: "storage_map \<Rightarrow> Value \<Rightarrow> Value set" where
  "cluster_of m u = (case map_of m u of Some cl \<Rightarrow> set cl | None \<Rightarrow> {})"

text \<open>
  Two values are linked when a chain of values leads from one to the other in which the
  database asserts \<^verbatim>\<open>mayAlias\<close> for every two neighbours, in one order or the other.
\<close>

definition alias_linked :: "AliasDb \<Rightarrow> Value \<Rightarrow> Value \<Rightarrow> bool" where
  "alias_linked db u v = ((u, v) \<in> {(a, b). mayAlias db a b \<or> mayAlias db b a}\<^sup>*)"

text \<open>Every value with an entry is in its own cluster, and the members of a cluster share it.\<close>

definition clusters_consistent :: "storage_map \<Rightarrow> bool" where
  "clusters_consistent m =
     (\<forall>u cl. map_of m u = Some cl \<longrightarrow> u \<in> set cl \<and> (\<forall>w \<in> set cl. map_of m w = Some cl))"

text \<open>The members of every cluster are linked to the value whose cluster it is.\<close>

definition clusters_linked :: "AliasDb \<Rightarrow> storage_map \<Rightarrow> bool" where
  "clusters_linked db m = (\<forall>u cl. map_of m u = Some cl \<longrightarrow> (\<forall>w \<in> set cl. alias_linked db u w))"

text \<open>Two values of one cluster have no edge in the liveness map, or they are linked.\<close>

definition clusters_respect :: "LivenessMap \<Rightarrow> AliasDb \<Rightarrow> storage_map \<Rightarrow> bool" where
  "clusters_respect lm db m =
     (\<forall>u cl. map_of m u = Some cl \<longrightarrow> (\<forall>w \<in> set cl. no_edge lm u w \<or> alias_linked db u w))"

text \<open>How many of the values in creation order have no entry in the liveness map yet.\<close>

definition unseen :: "Value list \<Rightarrow> live_state \<Rightarrow> nat" where
  "unseen order st = card (set order - dom (liveness_map st))"

section \<open>The constructor of StaticModule\<close>

text \<open>
  \<^verbatim>\<open>RemoveSelfFromGraphInput\<close>: an unused first input of module type is erased; a used one
  stays and the function answers false.
\<close>

definition RemoveSelfFromGraphInput :: "Env \<Rightarrow> Graph \<Rightarrow> error + (bool \<times> Graph)" where
  "RemoveSelfFromGraphInput env g =
     (case g_inputs g of
        [] \<Rightarrow> Inl OutOfRange
      | i0 # rest \<Rightarrow>
          if is_module_type env i0 then
            (if uses g i0 \<noteq> [] then Inr (False, g)
             else Inr (True, g\<lparr>g_inputs := rest\<rparr>))
          else Inr (True, g))"

text \<open>A schema is the list of the names of its arguments.\<close>

definition RemoveSelfFromSchema :: "string list \<Rightarrow> error + string list" where
  "RemoveSelfFromSchema s =
     (case s of
        a # args \<Rightarrow> if a = ''self'' then Inr args else Inl (TorchCheckFailed ''self'')
      | [] \<Rightarrow> Inl (TorchCheckFailed ''self''))"

text \<open>\<^verbatim>\<open>node->output()\<close>: the only output of a node.\<close>

definition the_output :: "Node \<Rightarrow> error + Value" where
  "the_output node =
     (case n_outputs node of
        [v] \<Rightarrow> Inr v
      | _ \<Rightarrow> Inl (TorchCheckFailed ''outputs_.size() == 1''))"

text \<open>The first loop over the constants fills \<^verbatim>\<open>constants_\<close>.\<close>

fun fill_constants :: "Env \<Rightarrow> Node list \<Rightarrow> error + IValue list" where
  "fill_constants env [] = Inr []"
| "fill_constants env (node # rest) =
     (if \<not> is_constant node then fill_constants env rest
      else
        (case the_output node of
           Inl e \<Rightarrow> Inl e
         | Inr v \<Rightarrow>
             if is_function_type env v then Inl (TorchCheckFailed ''v->type()->kind() != FunctionType::Kind'')
             else
               (case toIValue env v of
                  None \<Rightarrow> Inl BadOptionalAccess
                | Some iv \<Rightarrow>
                    (case fill_constants env rest of
                       Inl e \<Rightarrow> Inl e
                     | Inr ivs \<Rightarrow> Inr (iv # ivs)))))"

text \<open>
  The two maps of the constructor: from a value to the cell that holds it, if known (a null
  pointer is \<open>Some None\<close>), and from a value to its \<^verbatim>\<open>DefInfo\<close>.
\<close>

record wiring =
  value_to_ivalue :: "Value \<Rightarrow> slot option option"
  value_to_ssa_def :: "Value \<Rightarrow> (int \<times> int) option"

fun wire_inputs :: "nat \<Rightarrow> Value list \<Rightarrow> wiring \<Rightarrow> wiring" where
  "wire_inputs i [] w = w"
| "wire_inputs i (inp # rest) w =
     wire_inputs (Suc i) rest
       (w\<lparr>value_to_ivalue := (value_to_ivalue w)(inp \<mapsto> None),
          value_to_ssa_def := (value_to_ssa_def w)(inp \<mapsto> (INPUT_VALUE, int i))\<rparr>)"

fun wire_constants :: "nat \<Rightarrow> Node list \<Rightarrow> wiring \<Rightarrow> error + wiring" where
  "wire_constants i [] w = Inr w"
| "wire_constants i (node # rest) w =
     (if \<not> is_constant node then wire_constants i rest w
      else
        (case the_output node of
           Inl e \<Rightarrow> Inl e
         | Inr v \<Rightarrow>
             wire_constants (Suc i) rest
               (w\<lparr>value_to_ssa_def := (value_to_ssa_def w)(v \<mapsto> (CONSTANT_VALUE, int i)),
                  value_to_ivalue := (value_to_ivalue w)(v \<mapsto> Some (ConstSlot i))\<rparr>)))"

fun lookup_inputs :: "Value list \<Rightarrow> wiring \<Rightarrow> error + (slot option list \<times> (int \<times> int) list)" where
  "lookup_inputs [] w = Inr ([], [])"
| "lookup_inputs (inp # rest) w =
     (case value_to_ivalue w inp of
        None \<Rightarrow> Inl OutOfRange
      | Some p \<Rightarrow>
          (case value_to_ssa_def w inp of
             None \<Rightarrow> Inl OutOfRange
           | Some d \<Rightarrow>
               (case lookup_inputs rest w of
                  Inl e \<Rightarrow> Inl e
                | Inr (ps, ds) \<Rightarrow> Inr (p # ps, d # ds))))"

fun wire_outputs :: "nat \<Rightarrow> nat \<Rightarrow> Value list \<Rightarrow> wiring \<Rightarrow> wiring" where
  "wire_outputs node_idx i [] w = w"
| "wire_outputs node_idx i (out # rest) w =
     wire_outputs node_idx (Suc i) rest
       (w\<lparr>value_to_ivalue := (value_to_ivalue w)(out \<mapsto> None),
          value_to_ssa_def := (value_to_ssa_def w)(out \<mapsto> (int node_idx, int i))\<rparr>)"

text \<open>The loop over the other nodes: the wiring of the inputs, the template, the outputs.\<close>

fun wire_nodes ::
  "Env \<Rightarrow> bool \<Rightarrow> nat \<Rightarrow> Node list \<Rightarrow> wiring \<times> (nat \<Rightarrow> (int \<times> int) list option) \<times> NodeTemplate list
     \<Rightarrow> error + (wiring \<times> (nat \<Rightarrow> (int \<times> int) list option) \<times> NodeTemplate list)" where
  "wire_nodes env use_out_variant node_idx [] st = Inr st"
| "wire_nodes env use_out_variant node_idx (node # rest) (w, index_map, nodes) =
     (if is_constant node then wire_nodes env use_out_variant node_idx rest (w, index_map, nodes)
      else
        (case lookup_inputs (n_inputs node) w of
           Inl e \<Rightarrow> Inl e
         | Inr (ivalue_inputs, input_ssa_defs) \<Rightarrow>
             (case ProcessedNode_ctor env node ivalue_inputs use_out_variant of
                Inl e \<Rightarrow> Inl e
              | Inr pn \<Rightarrow>
                  wire_nodes env use_out_variant (Suc node_idx) rest
                    (wire_outputs node_idx 0 (n_outputs node) w,
                     index_map(node_idx \<mapsto> input_ssa_defs),
                     nodes @ [pn]))))"

text \<open>
  \<^verbatim>\<open>StaticModule::StaticModule\<close> on a prepared graph. \<open>module_schema\<close> is the schema of the
  module's \<^verbatim>\<open>forward\<close> when there is a module, \<open>db\<close> the alias database of the graph. A graph
  output without a definition gets the pair \<^verbatim>\<open>operator[]\<close> makes, (0, 0).
\<close>

definition StaticModule_ctor ::
  "Env \<Rightarrow> AliasDb \<Rightarrow> Graph \<Rightarrow> string list option \<Rightarrow> StaticModuleOptions \<Rightarrow> error + StaticModule" where
  "StaticModule_ctor env db graph module_schema opts =
     (case check_opt_flags opts of
        Inl e \<Rightarrow> Inl e
      | Inr _ \<Rightarrow>
     (case (case module_schema of
              None \<Rightarrow> Inr (graph, None, False)
            | Some s \<Rightarrow>
                (case RemoveSelfFromGraphInput env graph of
                   Inl e \<Rightarrow> Inl e
                 | Inr (removed, g') \<Rightarrow>
                     if removed then
                       (case RemoveSelfFromSchema s of
                          Inl e \<Rightarrow> Inl e
                        | Inr s' \<Rightarrow> Inr (g', Some s', False))
                     else Inr (g', Some s, True))) of
        Inl e \<Rightarrow> Inl e
      | Inr (g, schema, first_input_is_self) \<Rightarrow>
     (case fill_constants env (g_nodes g) of
        Inl e \<Rightarrow> Inl e
      | Inr constants \<Rightarrow>
     (case wire_constants 0 (g_nodes g)
             (wire_inputs 0 (g_inputs g)
                \<lparr>value_to_ivalue = Map.empty, value_to_ssa_def = Map.empty\<rparr>) of
        Inl e \<Rightarrow> Inl e
      | Inr w \<Rightarrow>
     (case wire_nodes env (enable_out_variant opts) 0 (g_nodes g) (w, Map.empty, []) of
        Inl e \<Rightarrow> Inl e
      | Inr (w', index_map, nodes) \<Rightarrow>
     (case prepare_memory_planning env opts g db of
        Inl e \<Rightarrow> Inl e
      | Inr (external_values, same_storage) \<Rightarrow>
          Inr \<lparr>sm_opts = opts, sm_graph = g, sm_constants = constants, sm_nodes = nodes,
               sm_index_map = index_map,
               sm_output_indices =
                 map (\<lambda>out. case value_to_ssa_def w' out of Some d \<Rightarrow> d | None \<Rightarrow> (0, 0))
                   (g_outputs g),
               sm_external_values = external_values,
               sm_values_share_same_storage = map_of same_storage,
               sm_first_input_is_self = first_input_is_self,
               sm_schema = schema\<rparr>))))))"

section \<open>Vocabulary for the overlap check\<close>

text \<open>
  The wording of the specification for the overlap check, to be compared with the check of the
  source: the storages of two tensors overlap in memory when each holds at least one byte and
  their byte ranges meet. A pointer into the planner's buffer is an offset in that buffer; any
  other allocation is named by a number of its own and meets no other allocation.
\<close>

fun ranges_meet :: "data_ptr \<Rightarrow> size_t \<Rightarrow> data_ptr \<Rightarrow> size_t \<Rightarrow> bool" where
  "ranges_meet (ArenaPtr a) n (ArenaPtr b) m =
     (0 < n \<and> 0 < m \<and> unat a < unat b + unat m \<and> unat b < unat a + unat n)"
| "ranges_meet (HeapPtr a) n (HeapPtr b) m = (0 < n \<and> 0 < m \<and> a = b)"
| "ranges_meet _ _ _ _ = False"

definition storages_overlap :: "heap \<Rightarrow> slot \<Rightarrow> slot \<Rightarrow> bool" where
  "storages_overlap h a b =
     ranges_meet (st_data (storages h (tensor_storage h a))) (storage_nbytes h a)
                 (st_data (storages h (tensor_storage h b))) (storage_nbytes h b)"

section \<open>Concrete states used by the closed theorems\<close>

text \<open>
  Three node outputs, each tensor with a storage of its own: 100, 30 and 0 bytes. The first
  two form one cluster, the third (an empty tensor) another.
\<close>

definition ex_heap :: heap where
  "ex_heap = \<lparr>ivalues = (\<lambda>s. IVTensor True),
              tensor_storage = (\<lambda>s. case s of OutSlot n i \<Rightarrow> Suc n | _ \<Rightarrow> 0),
              storages = (\<lambda>a. \<lparr>st_nbytes = (if a = 1 then 100 else if a = 2 then 30 else 0),
                                st_data = HeapPtr a\<rparr>)\<rparr>"

definition ex_planner :: MemoryPlanner where
  "ex_planner = \<lparr>managed_tensors = [(0, [OutSlot 0 0, OutSlot 1 0]), (0, [OutSlot 2 0])],
                 unmanaged_ivalues = [], managed_bytes = 0, reused_tensors = 0,
                 buffer = None, buffers_acquired = []\<rparr>"

text \<open>
  The same three outputs, but the first two tensors reach one storage (10 bytes) while lying
  in different clusters; the third has a storage of 100 bytes.
\<close>

definition ex_shared_heap :: heap where
  "ex_shared_heap = \<lparr>ivalues = (\<lambda>s. IVTensor True),
              tensor_storage = (\<lambda>s. case s of OutSlot n i \<Rightarrow> (if n \<le> 1 then 1 else 2) | _ \<Rightarrow> 0),
              storages = (\<lambda>a. \<lparr>st_nbytes = (if a = 1 then 10 else if a = 2 then 100 else 0),
                                st_data = HeapPtr a\<rparr>)\<rparr>"

definition ex_shared_planner :: MemoryPlanner where
  "ex_shared_planner = \<lparr>managed_tensors = [(0, [OutSlot 0 0]), (0, [OutSlot 1 0, OutSlot 2 0])],
                 unmanaged_ivalues = [], managed_bytes = 0, reused_tensors = 0,
                 buffer = None, buffers_acquired = []\<rparr>"

text \<open>
  A debug build with alignment 64 whose kernels write a tensor into their first output, and
  a module with no node and no output over the empty graph.
\<close>

definition ex_env :: Env where
  "ex_env = \<lparr>debug_build = True, gAlignment = 64,
             canReuseInputsOutputs = (\<lambda>n. True),
             isOptimizableContainerType = (\<lambda>n. False),
             get_overlap_status = (\<lambda>h a b. if tensor_storage h a = tensor_storage h b then FULL else NO),
             run_kernel = (\<lambda>idx d h. (h\<lparr>ivalues := (ivalues h)(OutSlot idx 0 := IVTensor True)\<rparr>, None)),
             checkAndNormalizeInputs = (\<lambda>stack kwargs. Inr stack),
             module_ivalue = IVOther,
             getOutOfPlaceOperation = (\<lambda>n. True), getNativeOperation = (\<lambda>n. False),
             hasOperator = (\<lambda>n. True), toIValue = (\<lambda>v. None),
             is_function_type = (\<lambda>v. False), is_module_type = (\<lambda>v. False)\<rparr>"

definition ex_opts :: StaticModuleOptions where
  "ex_opts = \<lparr>cleanup_activations = True, enable_out_variant = True,
              optimize_memory = False, optimize_graph_output_memory = False\<rparr>"

definition ex_empty_module :: StaticModule where
  "ex_empty_module =
     \<lparr>sm_opts = ex_opts,
      sm_graph = \<lparr>g_inputs = [], g_outputs = [], g_nodes = [], g_tensor_type = (\<lambda>v. True)\<rparr>,
      sm_constants = [], sm_nodes = [], sm_index_map = (\<lambda>i. None), sm_output_indices = [],
      sm_external_values = {}, sm_values_share_same_storage = (\<lambda>v. None),
      sm_first_input_is_self = False, sm_schema = None\<rparr>"

text \<open>
  A module of one node \<open>y = relu(x)\<close> whose output is the graph's output, and the node with an
  immutable schema as a runtime has it.
\<close>

definition ex_relu_node :: Node where
  "ex_relu_node = \<lparr>n_kind = ''aten::relu'', n_inputs = [0], n_outputs = [1], n_schema = Some False\<rparr>"

definition ex_relu_module :: StaticModule where
  "ex_relu_module =
     \<lparr>sm_opts = ex_opts,
      sm_graph = \<lparr>g_inputs = [0], g_outputs = [1], g_nodes = [ex_relu_node],
                  g_tensor_type = (\<lambda>v. True)\<rparr>,
      sm_constants = [],
      sm_nodes = [\<lparr>nt_node = ex_relu_node, nt_inputs = [None], nt_dispatch = OutVariant\<rparr>],
      sm_index_map = (\<lambda>i. if i = 0 then Some [(INPUT_VALUE, 0)] else None),
      sm_output_indices = [(0, 0)],
      sm_external_values = {0, 1}, sm_values_share_same_storage = (\<lambda>v. None),
      sm_first_input_is_self = False, sm_schema = None\<rparr>"

definition ex_relu_pnode :: ProcessedNode where
  "ex_relu_pnode = \<lparr>pn_node = ex_relu_node, pn_inputs = [InputSlot 0], pn_dispatch = OutVariant\<rparr>"

text \<open>A heap in which the input and the output of that node are tensors on one storage.\<close>

definition ex_overlap_heap :: heap where
  "ex_overlap_heap = \<lparr>ivalues = (\<lambda>s. IVTensor True), tensor_storage = (\<lambda>s. 7),
                      storages = (\<lambda>a. \<lparr>st_nbytes = 16, st_data = HeapPtr a\<rparr>)\<rparr>"

text \<open>
  A heap in which the input and the output of that node are tensors on two storages of 64
  bytes each, in two allocations.
\<close>

definition ex_separate_heap :: heap where
  "ex_separate_heap =
     \<lparr>ivalues = (\<lambda>s. IVTensor True),
      tensor_storage = (\<lambda>s. case s of OutSlot n i \<Rightarrow> 2 | _ \<Rightarrow> 1),
      storages = (\<lambda>a. \<lparr>st_nbytes = 64, st_data = HeapPtr a\<rparr>)\<rparr>"

text \<open>
  Two more probes: one that cannot decide for the tensors it is given and answers
  \<^verbatim>\<open>TOO_HARD\<close>, and one that finds the tensors it is given apart and answers \<^verbatim>\<open>NO\<close>
  (two views of one storage that occupy different bytes of it, say).
\<close>

definition ex_env_too_hard :: Env where
  "ex_env_too_hard = ex_env\<lparr>get_overlap_status := (\<lambda>h a b. TOO_HARD)\<rparr>"

definition ex_env_no :: Env where
  "ex_env_no = ex_env\<lparr>get_overlap_status := (\<lambda>h a b. NO)\<rparr>"

text \<open>The same module returning its value twice, and the same module without cleanup.\<close>

definition ex_relu_module2 :: StaticModule where
  "ex_relu_module2 =
     ex_relu_module\<lparr>sm_graph := (sm_graph ex_relu_module)\<lparr>g_outputs := [1, 1]\<rparr>,
                    sm_output_indices := [(0, 0), (0, 0)]\<rparr>"

definition ex_relu_module_no_cleanup :: StaticModule where
  "ex_relu_module_no_cleanup =
     ex_relu_module\<lparr>sm_opts := ex_opts\<lparr>cleanup_activations := False\<rparr>\<rparr>"

definition ex_relu_runtime :: "StaticModule \<Rightarrow> StaticRuntime" where
  "ex_relu_runtime sm =
     \<lparr>rt_module = sm, rt_inputs_size = 1, rt_nodes = [ex_relu_pnode],
      rt_outputs = map (\<lambda>d. OutSlot 0 0) (sm_output_indices sm), rt_planner = None,
      rt_heap = ex_heap\<lparr>ivalues := fresh_ivalues sm\<rparr>, rt_leak_checks = 0\<rparr>"

text \<open>An alias database in which a value aliases itself only.\<close>

definition ex_db :: AliasDb where
  "ex_db = \<lparr>mayAlias = (\<lambda>a b. a = b), mayContainAlias = (\<lambda>a b. a = b),
            mayContainAliasSets = (\<lambda>as bs. as \<inter> bs \<noteq> {})\<rparr>"

definition ex_relu_graph :: Graph where
  "ex_relu_graph = \<lparr>g_inputs = [0], g_outputs = [1], g_nodes = [ex_relu_node],
                    g_tensor_type = (\<lambda>v. True)\<rparr>"

text \<open>
  A chain \<open>1 = f(0); 2 = f(1); 3 = f(2); 4 = f(3)\<close> returning 4, and a graph
  \<open>1 = f(0); 2 = f(1); 3 = f(2); 4 = f(1, 3)\<close> returning 4, in which 1 is still live when
  3 is made.
\<close>

definition ex_node :: "Value list \<Rightarrow> Value list \<Rightarrow> Node" where
  "ex_node ins outs = \<lparr>n_kind = ''aten::relu'', n_inputs = ins, n_outputs = outs, n_schema = Some False\<rparr>"

definition ex_chain_graph :: Graph where
  "ex_chain_graph =
     \<lparr>g_inputs = [0], g_outputs = [4],
      g_nodes = [ex_node [0] [1], ex_node [1] [2], ex_node [2] [3], ex_node [3] [4]],
      g_tensor_type = (\<lambda>v. True)\<rparr>"

definition ex_alias_graph :: Graph where
  "ex_alias_graph =
     \<lparr>g_inputs = [0], g_outputs = [4],
      g_nodes = [ex_node [0] [1], ex_node [1] [2], ex_node [2] [3], ex_node [1, 3] [4]],
      g_tensor_type = (\<lambda>v. True)\<rparr>"

text \<open>
  A database in which 2 may alias 1 and 3 may alias 2, while 1 and 3 do not alias: the sets
  of memory locations of 1, 2 and 3 are \<open>{a}\<close>, \<open>{a, b}\<close> and \<open>{b}\<close>.
\<close>

definition ex_may_alias :: "Value \<Rightarrow> Value \<Rightarrow> bool" where
  "ex_may_alias a b = (a = b \<or> (a = 1 \<and> b = 2) \<or> (a = 2 \<and> b = 1) \<or> (a = 2 \<and> b = 3) \<or> (a = 3 \<and> b = 2))"

definition ex_alias_db :: AliasDb where
  "ex_alias_db = \<lparr>mayAlias = ex_may_alias, mayContainAlias = ex_may_alias,
                  mayContainAliasSets = (\<lambda>as bs. \<exists>a \<in> as. \<exists>b \<in> bs. ex_may_alias a b)\<rparr>"

definition ex_opts_memory :: StaticModuleOptions where
  "ex_opts_memory = \<lparr>cleanup_activations = True, enable_out_variant = True,
                     optimize_memory = True, optimize_graph_output_memory = False\<rparr>"

text \<open>A database in which 1 may contain an alias of the input 0 (a view of it, say).\<close>

definition ex_view_alias :: "Value \<Rightarrow> Value \<Rightarrow> bool" where
  "ex_view_alias a b = (a = b \<or> (a = 1 \<and> b = 0) \<or> (a = 0 \<and> b = 1))"

definition ex_view_db :: AliasDb where
  "ex_view_db = \<lparr>mayAlias = ex_view_alias, mayContainAlias = ex_view_alias,
                 mayContainAliasSets = (\<lambda>as bs. \<exists>a \<in> as. \<exists>b \<in> bs. ex_view_alias a b)\<rparr>"

section \<open>Properties\<close>

text \<open>
  C8. The two checks at the head of StaticModule's constructor pass exactly when
  optimize_graph_output_memory implies enable_out_variant and optimize_memory, and
  optimize_memory implies enable_out_variant; when optimize_graph_output_memory is set
  without both, or optimize_memory without enable_out_variant, construction raises.
\<close>

theorem check_opt_flags_iff:
  "(check_opt_flags opts = Inr ()) =
     ((optimize_graph_output_memory opts \<longrightarrow> enable_out_variant opts \<and> optimize_memory opts) \<and>
      (optimize_memory opts \<longrightarrow> enable_out_variant opts))
   \<and> ((optimize_graph_output_memory opts \<and> \<not> (enable_out_variant opts \<and> optimize_memory opts))
        \<or> (optimize_memory opts \<and> \<not> enable_out_variant opts)
       \<longrightarrow> (\<exists>msg. StaticModule_ctor env db graph module_schema opts = Inl (TorchCheckFailed msg)))"
  by (auto simp: StaticModule_ctor_def check_opt_flags_def TORCH_CHECK_def)

theorem check_opt_flags_iff_witness:
  "check_opt_flags \<lparr>cleanup_activations = True, enable_out_variant = True,
      optimize_memory = True, optimize_graph_output_memory = True\<rparr> = Inr ()
   \<and> (\<exists>msg. StaticModule_ctor ex_env ex_db ex_relu_graph None
         \<lparr>cleanup_activations = True, enable_out_variant = False,
          optimize_memory = True, optimize_graph_output_memory = False\<rparr> = Inl (TorchCheckFailed msg))
   \<and> (\<exists>msg. StaticModule_ctor ex_env ex_db ex_relu_graph None
         \<lparr>cleanup_activations = True, enable_out_variant = True,
          optimize_memory = False, optimize_graph_output_memory = True\<rparr> = Inl (TorchCheckFailed msg))"
  using check_opt_flags_iff [of "\<lparr>cleanup_activations = True, enable_out_variant = True,
      optimize_memory = True, optimize_graph_output_memory = True\<rparr>" ex_env ex_db ex_relu_graph None]
    check_opt_flags_iff [of "\<lparr>cleanup_activations = True, enable_out_variant = False,
      optimize_memory = True, optimize_graph_output_memory = False\<rparr>" ex_env ex_db ex_relu_graph None]
    check_opt_flags_iff [of "\<lparr>cleanup_activations = True, enable_out_variant = True,
      optimize_memory = False, optimize_graph_output_memory = True\<rparr>" ex_env ex_db ex_relu_graph None]
  by simp

subsection \<open>Alignment\<close>

lemma and_not_mask_eq: "(x::'a::len word) AND NOT (mask k) = push_bit k (drop_bit k x)"
  by (rule bit_word_eqI) (auto simp: bit_simps)

lemma round_up_nat:
  fixes N A :: nat
  assumes "0 < A"
  defines "r \<equiv> ((N + A - 1) div A) * A"
  shows "A dvd r" and "N \<le> r" and "r \<le> N + A - 1" and "\<And>m. A dvd m \<Longrightarrow> N \<le> m \<Longrightarrow> r \<le> m"
proof -
  show "A dvd r" by (simp add: r_def)
  have e: "N + A - 1 = r + (N + A - 1) mod A"
    by (simp add: r_def)
  have "(N + A - 1) mod A < A" using assms by simp
  then have "(N + A - 1) mod A \<le> A - 1" by linarith
  with e show "N \<le> r" using assms by linarith
  from e show "r \<le> N + A - 1" by linarith
  fix m assume "A dvd m" "N \<le> m"
  then obtain q where m: "m = q * A" by (metis dvd_def mult.commute)
  have "(N + A - 1) div A \<le> q"
  proof -
    have "N + A - 1 < (q + 1) * A" using \<open>N \<le> m\<close> m assms by simp
    then have "(N + A - 1) div A < q + 1"
      using assms by (simp add: less_mult_imp_div_less)
    then show ?thesis by simp
  qed
  then show "r \<le> m" by (simp add: r_def m)
qed

lemma unat_mask_size_t:
  assumes k: "k < 64"
  shows "unat (mask k :: size_t) = 2 ^ k - 1"
proof -
  have "uint (mask k :: size_t) = (mask k :: int)"
    using k by (simp add: uint_mask_eq min_def)
  also have "(mask k :: int) = 2 ^ k - 1"
    by (simp add: mask_eq_exp_minus_1)
  finally have "unat (mask k :: size_t) = nat (2 ^ k - 1)"
    by (simp add: unat_eq_nat_uint)
  also have "\<dots> = 2 ^ k - 1"
    by (simp add: nat_diff_distrib nat_power_eq)
  finally show ?thesis .
qed

lemma unat_aligned:
  fixes n :: size_t
  assumes k: "k < 64" and nov: "unat n + 2 ^ k - 1 < 2 ^ 64"
  shows "unat (compute_aligned_tensor_size (2 ^ k) n) = ((unat n + 2 ^ k - 1) div 2 ^ k) * 2 ^ k"
proof -
  note m = unat_mask_size_t [OF k]
  have s: "n + 2 ^ k - 1 = n + mask k"
    by (simp add: mask_eq_exp_minus_1)
  have u: "unat (n + mask k) = unat n + 2 ^ k - 1"
  proof -
    have "unat n + unat (mask k :: size_t) < 2 ^ LENGTH(64)"
      using nov m by simp
    then have "unat (n + mask k) = unat n + unat (mask k :: size_t)"
      by (simp only: unat_add_lem)
    then show ?thesis using m by simp
  qed
  have le: "((unat n + 2 ^ k - 1) div 2 ^ k) * 2 ^ k \<le> unat n + 2 ^ k - 1"
    by (rule round_up_nat(3)) simp
  have "compute_aligned_tensor_size (2 ^ k) n = push_bit k (drop_bit k (n + mask k))"
    unfolding compute_aligned_tensor_size_def s
    by (simp add: mask_eq_exp_minus_1 [symmetric] and_not_mask_eq)
  then have "unat (compute_aligned_tensor_size (2 ^ k) n)
      = take_bit 64 (push_bit k (drop_bit k (unat (n + mask k))))"
    by (simp add: unsigned_push_bit_eq unat_drop_bit_eq)
  also have "\<dots> = take_bit 64 (((unat n + 2 ^ k - 1) div 2 ^ k) * 2 ^ k)"
    by (simp add: u push_bit_eq_mult drop_bit_eq_div)
  also have "\<dots> = ((unat n + 2 ^ k - 1) div 2 ^ k) * 2 ^ k"
  proof -
    have "((unat n + 2 ^ k - 1) div 2 ^ k) * 2 ^ k < 2 ^ 64"
      using le nov by (rule le_less_trans)
    then show ?thesis by (simp only: take_bit_nat_eq_self_iff)
  qed
  finally show ?thesis .
qed

text \<open>
  C7. For every \<^verbatim>\<open>size_t\<close> n and alignment A = 2^k, compute_aligned_tensor_size(n) is
  (n + A - 1) & ~(A - 1); when n + A - 1 does not overflow the result is the least
  multiple of A that is at least n; and on a multiple of A the function is the identity.
\<close>

theorem compute_aligned_tensor_size_spec:
  fixes n :: size_t
  assumes k: "k < 64"
  shows "compute_aligned_tensor_size (2 ^ k) n = (n + 2 ^ k - 1) AND NOT (2 ^ k - 1)
    \<and> (unat n + 2 ^ k - 1 < 2 ^ 64 \<longrightarrow>
          2 ^ k dvd unat (compute_aligned_tensor_size (2 ^ k) n)
        \<and> unat n \<le> unat (compute_aligned_tensor_size (2 ^ k) n)
        \<and> (\<forall>m. 2 ^ k dvd m \<and> unat n \<le> m \<longrightarrow> unat (compute_aligned_tensor_size (2 ^ k) n) \<le> m))
    \<and> (2 ^ k dvd unat n \<longrightarrow> compute_aligned_tensor_size (2 ^ k) n = n)"
proof (intro conjI impI allI)
  show "compute_aligned_tensor_size (2 ^ k) n = (n + 2 ^ k - 1) AND NOT (2 ^ k - 1)"
    by (simp add: compute_aligned_tensor_size_def)
next
  assume nov: "unat n + 2 ^ k - 1 < 2 ^ 64"
  show "2 ^ k dvd unat (compute_aligned_tensor_size (2 ^ k) n)"
    by (simp add: unat_aligned [OF k nov])
  show "unat n \<le> unat (compute_aligned_tensor_size (2 ^ k) n)"
    unfolding unat_aligned [OF k nov] by (rule round_up_nat(2)) simp
  fix m assume "2 ^ k dvd m \<and> unat n \<le> m"
  then show "unat (compute_aligned_tensor_size (2 ^ k) n) \<le> m"
    unfolding unat_aligned [OF k nov] by (intro round_up_nat(4)) simp_all
next
  assume d: "2 ^ k dvd unat n"
  have lt: "unat n < 2 ^ 64" using unsigned_less [of n] by simp
  have kk: "(2::nat) ^ k dvd 2 ^ 64" by (rule le_imp_power_dvd) (use k in simp)
  have "unat n + 2 ^ k \<le> 2 ^ 64"
  proof -
    obtain q where q: "unat n = 2 ^ k * q" using d by (metis dvd_def)
    obtain p where p: "(2::nat) ^ 64 = 2 ^ k * p" using kk by (metis dvd_def)
    have "2 ^ k * q < 2 ^ k * p" using lt q p by simp
    then have "q < p" by simp
    then have "q + 1 \<le> p" by simp
    then have "2 ^ k * (q + 1) \<le> 2 ^ k * p" by (rule mult_le_mono2)
    then show ?thesis using q p by simp
  qed
  then have nov: "unat n + 2 ^ k - 1 < 2 ^ 64"
    by (metis Suc_pred' add_gr_0 less_eq_Suc_le zero_less_numeral zero_less_power)
  have "((unat n + 2 ^ k - 1) div 2 ^ k) * 2 ^ k = unat n"
  proof -
    have "((unat n + 2 ^ k - 1) div 2 ^ k) * 2 ^ k \<le> unat n"
      by (rule round_up_nat(4)) (use d in simp_all)
    moreover have "unat n \<le> ((unat n + 2 ^ k - 1) div 2 ^ k) * 2 ^ k"
      by (rule round_up_nat(2)) simp
    ultimately show ?thesis by simp
  qed
  then have "unat (compute_aligned_tensor_size (2 ^ k) n) = unat n"
    by (simp add: unat_aligned [OF k nov])
  then show "compute_aligned_tensor_size (2 ^ k) n = n"
    by (simp add: word_unat_eq_iff)
qed

theorem compute_aligned_tensor_size_spec_witness:
  "(6::nat) < 64 \<and> compute_aligned_tensor_size (2 ^ 6) 100 = 128
   \<and> compute_aligned_tensor_size (2 ^ 6) 128 = 128"
  using compute_aligned_tensor_size_spec [of 6 100] compute_aligned_tensor_size_spec [of 6 128]
  by (simp add: compute_aligned_tensor_size_def)

subsection \<open>The count of reused tensors\<close>

lemmas planner_defs = deallocate_def allocate_def allocate_buffer_def storage_reset_def
  set_storage_def storage_nbytes_def compute_aligned_tensor_size_def ex_heap_def ex_planner_def
  nonzero_clusters_def total_tensors_def reused_tensors_as_specified_def


lemma bind_cluster_reused:
  "fst (bind_cluster ts src sz (r, h)) = r + word_of_nat (length ts)"
  by (induction ts arbitrary: r h) (simp_all add: algebra_simps)

lemma allocate_loop_reused:
  "allocate_loop dbg mb ms (off, r, h) = Inr (off', r', h') \<Longrightarrow>
     r' = r + word_of_nat (total_tensors (nonzero_clusters ms))
            - word_of_nat (length (nonzero_clusters ms))"
proof (induction ms arbitrary: off r h)
  case Nil
  then show ?case by (simp add: total_tensors_def nonzero_clusters_def)
next
  case (Cons c ms)
  obtain sz ts where c: "c = (sz, ts)" by (cases c)
  show ?case
  proof (cases "sz = 0")
    case True
    with Cons c show ?thesis by (simp add: total_tensors_def nonzero_clusters_def)
  next
    case False
    obtain r1 h1 where b: "bind_cluster ts (ArenaPtr off) sz (r, h) = (r1, h1)"
      by (cases "bind_cluster ts (ArenaPtr off) sz (r, h)")
    have r1: "r1 = r + word_of_nat (length ts)"
      using bind_cluster_reused [of ts "ArenaPtr off" sz r h] b by simp
    from Cons.prems c False b
    have "allocate_loop dbg mb ms (off + sz, r1 - 1, h1) = Inr (off', r', h')"
      by (simp split: if_splits)
    from Cons.IH [OF this]
    show ?thesis using c False r1
      by (simp add: total_tensors_def nonzero_clusters_def algebra_simps)
  qed
qed

text \<open>
  C6 (amended). After allocate completes with managed_bytes > 0, reused_tensors is the number
  of tensors in the clusters whose learned size is nonzero, minus the number of those
  clusters. Clusters of learned size zero are skipped and their tensors are not counted.
\<close>

theorem allocate_reused_tensors:
  "managed_bytes p \<noteq> 0 \<Longrightarrow> allocate dbg p h = Inr (p', h') \<Longrightarrow>
     reused_tensors p' =
       word_of_nat (total_tensors (nonzero_clusters (managed_tensors p)))
         - word_of_nat (length (nonzero_clusters (managed_tensors p)))"
  by (auto simp: allocate_def allocate_buffer_def Let_def
        split: sum.splits if_splits dest!: allocate_loop_reused)

text \<open>
  The count differs from the specified one when a cluster of learned size zero exists: two
  tensors of 100 and 30 bytes in one cluster and an empty tensor in another give 1, not 2.
\<close>

theorem allocate_reused_tensors_counterexample:
  "(case deallocate 64 ex_planner ex_heap of
      (p1, h1) \<Rightarrow>
        managed_bytes p1 \<noteq> 0 \<and>
        (case allocate False p1 h1 of
           Inl e \<Rightarrow> False
         | Inr (p2, h2) \<Rightarrow>
             reused_tensors p2 = 1 \<and> reused_tensors_as_specified (managed_tensors p2) = 2))"
  by (simp add: planner_defs)


theorem allocate_reused_tensors_witness:
  "managed_bytes (fst (deallocate 64 ex_planner ex_heap)) \<noteq> 0 \<and>
   (\<exists>p2 h2. allocate True (fst (deallocate 64 ex_planner ex_heap))
               (snd (deallocate 64 ex_planner ex_heap)) = Inr (p2, h2)
            \<and> reused_tensors p2 = 1)"
proof -
  obtain p1 h1 where d: "deallocate 64 ex_planner ex_heap = (p1, h1)"
    by (cases "deallocate 64 ex_planner ex_heap")
  have mb: "managed_bytes p1 \<noteq> 0"
    using d [symmetric] by (simp add: planner_defs)
  have ms: "managed_tensors p1 = [(128, [OutSlot 0 0, OutSlot 1 0]), (0, [OutSlot 2 0])]"
    using d [symmetric] by (simp add: planner_defs)
  obtain p2 h2 where a: "allocate True p1 h1 = Inr (p2, h2)"
    using d [symmetric] by (simp add: planner_defs)
  from allocate_reused_tensors [OF mb a] ms have "reused_tensors p2 = 1"
    by (simp add: nonzero_clusters_def total_tensors_def)
  with mb a d show ?thesis by auto
qed

subsection \<open>allocate followed by deallocate\<close>

lemma aligned_as_mask:
  "compute_aligned_tensor_size (2 ^ k) x = (x + mask k) AND NOT (mask k)"
  by (simp add: compute_aligned_tensor_size_def mask_eq_exp_minus_1 add_diff_eq)

lemma aligned_size_zero: "aligned_size A 0"
  by (simp add: aligned_size_def compute_aligned_tensor_size_def)

lemma aligned_size_aligned: "aligned_size (2 ^ k) (compute_aligned_tensor_size (2 ^ k) x)"
proof -
  define y where "y = (x + mask k) AND NOT (mask k)"
  have low: "y AND mask k = 0"
    unfolding y_def by (rule bit_word_eqI) (auto simp: bit_simps)
  have "y + mask k = y OR mask k"
  proof (rule disjunctive_add)
    fix n
    have "\<not> bit (y AND mask k) n" using low by simp
    then show "\<not> bit y n \<or> \<not> bit (mask k :: size_t) n"
      by (simp add: bit_and_iff)
  qed
  then have "(y + mask k) AND NOT (mask k) = y AND NOT (mask k)"
    by (simp add: bit.conj_disj_distrib2)
  also have "\<dots> = y"
    unfolding y_def by (rule bit_word_eqI) (auto simp: bit_simps)
  finally show ?thesis
    by (simp add: aligned_size_def aligned_as_mask y_def)
qed

lemma aligned_size_max: "aligned_size A a \<Longrightarrow> aligned_size A b \<Longrightarrow> aligned_size A (max a b)"
  by (simp add: max_def)


subsection \<open>Heap effects of the planner's loops\<close>

lemma tensor_storage_set_storage [simp]:
  "tensor_storage (set_storage h t s) = tensor_storage h"
  by (simp add: set_storage_def)

lemma tensor_storage_reset [simp]:
  "tensor_storage (storage_reset h t) = tensor_storage h"
  by (simp add: storage_reset_def)

lemma storage_nbytes_set_storage:
  "storage_nbytes (set_storage h t s) t' =
     (if tensor_storage h t' = tensor_storage h t then st_nbytes s else storage_nbytes h t')"
  by (simp add: set_storage_def storage_nbytes_def)

lemma storage_nbytes_reset:
  "storage_nbytes (storage_reset h t) t' =
     (if tensor_storage h t' = tensor_storage h t then 0 else storage_nbytes h t')"
  by (simp add: storage_reset_def storage_nbytes_set_storage)

lemma dealloc_cluster_heap:
  "dealloc_cluster A ts (mx, h) = (mx', h') \<Longrightarrow>
     tensor_storage h' = tensor_storage h \<and>
     (\<forall>t. storage_nbytes h' t =
           (if tensor_storage h t \<in> cluster_storages h ts then 0 else storage_nbytes h t))"
proof (induction ts arbitrary: mx h)
  case Nil
  then show ?case by (simp add: cluster_storages_def)
next
  case (Cons t ts)
  from Cons.prems have
    "dealloc_cluster A ts (max mx (compute_aligned_tensor_size A (storage_nbytes h t)),
        storage_reset h t) = (mx', h')"
    by (simp add: Let_def)
  from Cons.IH [OF this] show ?case
    by (auto simp: cluster_storages_def storage_nbytes_reset)
qed

lemma dealloc_cluster_fit:
  "\<forall>t \<in> set ts. storage_nbytes h t = 0 \<or> storage_nbytes h t = sz \<Longrightarrow> aligned_size A sz \<Longrightarrow>
     fst (dealloc_cluster A ts (sz, h)) = sz"
proof (induction ts arbitrary: h)
  case Nil
  then show ?case by simp
next
  case (Cons t ts)
  have z: "compute_aligned_tensor_size A 0 = 0"
    by (simp add: compute_aligned_tensor_size_def)
  have m: "max sz (compute_aligned_tensor_size A (storage_nbytes h t)) = sz"
    using Cons.prems z by (auto simp: aligned_size_def)
  have "\<forall>t' \<in> set ts. storage_nbytes (storage_reset h t) t' = 0
          \<or> storage_nbytes (storage_reset h t) t' = sz"
    using Cons.prems(1) by (simp add: storage_nbytes_reset)
  from Cons.IH [OF this Cons.prems(2)] show ?case
    by (simp add: Let_def m)
qed

lemma dealloc_cluster_aligned:
  "aligned_size (2 ^ k) mx \<Longrightarrow> aligned_size (2 ^ k) (fst (dealloc_cluster (2 ^ k) ts (mx, h)))"
  by (induction ts arbitrary: mx h) (simp_all add: Let_def aligned_size_max aligned_size_aligned)

lemma sizes_fit_after_cluster:
  assumes "dealloc_cluster A ts (mx, h) = (mx', h')" and "sizes_fit h ms"
  shows "sizes_fit h' ms"
  using dealloc_cluster_heap [OF assms(1)] assms(2)
  by (auto simp: sizes_fit_def)

lemma dealloc_loop_fit:
  "sizes_fit h ms \<Longrightarrow> \<forall>c \<in> set ms. aligned_size A (fst c) \<Longrightarrow>
     fst (dealloc_loop A ms (mb, h)) = ms
     \<and> fst (snd (dealloc_loop A ms (mb, h))) = mb + sum_list (map fst ms)"
proof (induction ms arbitrary: mb h)
  case Nil
  then show ?case by simp
next
  case (Cons c ms)
  obtain sz ts where c: "c = (sz, ts)" by (cases c)
  obtain mx h' where d: "dealloc_cluster A ts (sz, h) = (mx, h')"
    by (cases "dealloc_cluster A ts (sz, h)")
  have "\<forall>t \<in> set ts. storage_nbytes h t = 0 \<or> storage_nbytes h t = sz"
    using Cons.prems(1) c by (simp add: sizes_fit_def)
  moreover have "aligned_size A sz" using Cons.prems(2) c by simp
  ultimately have mx: "mx = sz"
    using dealloc_cluster_fit [of ts h sz A] d by simp
  have "sizes_fit h ms" using Cons.prems(1) by (simp add: sizes_fit_def)
  then have f: "sizes_fit h' ms" by (rule sizes_fit_after_cluster [OF d])
  have a: "\<forall>c \<in> set ms. aligned_size A (fst c)" using Cons.prems(2) by simp
  from Cons.IH [OF f a, of "mb + sz"] show ?case
    using c d mx by (auto split: prod.splits simp: add.assoc)
qed

lemma dealloc_loop_sum:
  "fst (snd (dealloc_loop A ms (mb, h))) = mb + sum_list (map fst (fst (dealloc_loop A ms (mb, h))))"
proof (induction ms arbitrary: mb h)
  case Nil
  then show ?case by simp
next
  case (Cons c ms)
  obtain sz ts where c: "c = (sz, ts)" by (cases c)
  obtain mx h' where d: "dealloc_cluster A ts (sz, h) = (mx, h')"
    by (cases "dealloc_cluster A ts (sz, h)")
  from Cons.IH [of "mb + mx" h'] show ?case
    using c d by (auto split: prod.splits simp: add.assoc)
qed

lemma dealloc_loop_aligned:
  "\<forall>c \<in> set ms. aligned_size (2 ^ k) (fst c) \<Longrightarrow>
     \<forall>c \<in> set (fst (dealloc_loop (2 ^ k) ms (mb, h))). aligned_size (2 ^ k) (fst c)"
proof (induction ms arbitrary: mb h)
  case Nil
  then show ?case by simp
next
  case (Cons c ms)
  obtain sz ts where c: "c = (sz, ts)" by (cases c)
  obtain mx h' where d: "dealloc_cluster (2 ^ k) ts (sz, h) = (mx, h')"
    by (cases "dealloc_cluster (2 ^ k) ts (sz, h)")
  have "aligned_size (2 ^ k) sz" using Cons.prems c by simp
  then have mx: "aligned_size (2 ^ k) mx"
    using dealloc_cluster_aligned [of k sz ts h] d by simp
  have "\<forall>c \<in> set ms. aligned_size (2 ^ k) (fst c)" using Cons.prems by simp
  from Cons.IH [OF this, of "mb + mx" h'] show ?case
    using c d mx by (simp split: prod.splits)
qed


lemma dealloc_loop_clusters:
  "map snd (fst (dealloc_loop A ms (mb, h))) = map snd ms"
proof (induction ms arbitrary: mb h)
  case Nil
  then show ?case by simp
next
  case (Cons c ms)
  obtain sz ts where c: "c = (sz, ts)" by (cases c)
  obtain mx h' where d: "dealloc_cluster A ts (sz, h) = (mx, h')"
    by (cases "dealloc_cluster A ts (sz, h)")
  from Cons.IH [of "mb + mx" h'] show ?case
    using c d by (auto split: prod.splits)
qed

lemma dealloc_loop_heap:
  "dealloc_loop A ms (mb, h) = (ms', mb', h') \<Longrightarrow>
     tensor_storage h' = tensor_storage h \<and> ivalues h' = ivalues h \<and>
     (\<forall>t. storage_nbytes h' t =
           (if \<exists>c \<in> set ms. tensor_storage h t \<in> cluster_storages h (snd c)
            then 0 else storage_nbytes h t))"
proof (induction ms arbitrary: mb h ms')
  case Nil
  then show ?case by simp
next
  case (Cons c ms)
  obtain sz ts where c: "c = (sz, ts)" by (cases c)
  obtain mx h1 where d: "dealloc_cluster A ts (sz, h) = (mx, h1)"
    by (cases "dealloc_cluster A ts (sz, h)")
  obtain ms1 where l: "dealloc_loop A ms (mb + mx, h1) = (ms1, mb', h')"
    using Cons.prems c d by (auto split: prod.splits)
  note H = dealloc_cluster_heap [OF d]
  have cs: "\<And>ts'. cluster_storages h1 ts' = cluster_storages h ts'"
    using H by (simp add: cluster_storages_def)
  have iv: "ivalues h1 = ivalues h"
    using d by (induction ts arbitrary: sz h)
      (auto simp: Let_def storage_reset_def set_storage_def)
  from Cons.IH [OF l] H iv show ?case
    using c by (auto simp: cs)
qed

lemma reset_ivalues_storages [simp]:
  "storages (reset_ivalues ivs h) = storages h"
  "tensor_storage (reset_ivalues ivs h) = tensor_storage h"
  by (induction ivs arbitrary: h) simp_all

lemma storage_nbytes_reset_ivalues [simp]:
  "storage_nbytes (reset_ivalues ivs h) t = storage_nbytes h t"
  by (simp add: storage_nbytes_def)

lemma bind_cluster_heap:
  "bind_cluster ts src sz (r, h) = (r', h') \<Longrightarrow>
     tensor_storage h' = tensor_storage h \<and>
     (\<forall>t. storage_nbytes h' t =
           (if tensor_storage h t \<in> cluster_storages h ts then sz else storage_nbytes h t))"
proof (induction ts arbitrary: r h)
  case Nil
  then show ?case by (simp add: cluster_storages_def)
next
  case (Cons t ts)
  from Cons.prems have
    "bind_cluster ts src sz (r + 1, set_storage h t \<lparr>st_nbytes = sz, st_data = src\<rparr>) = (r', h')"
    by simp
  from Cons.IH [OF this] show ?case
    by (auto simp: cluster_storages_def storage_nbytes_set_storage)
qed

lemma clusters_disjoint_cong:
  "tensor_storage h' = tensor_storage h \<Longrightarrow> clusters_disjoint h' ms = clusters_disjoint h ms"
  by (induction ms) (simp_all add: cluster_storages_def)

lemma allocate_loop_heap:
  "allocate_loop dbg mb ms (off, r, h) = Inr (off', r', h') \<Longrightarrow>
     tensor_storage h' = tensor_storage h \<and>
     (\<forall>t. (\<forall>c \<in> set ms. tensor_storage h t \<notin> cluster_storages h (snd c))
            \<longrightarrow> storage_nbytes h' t = storage_nbytes h t) \<and>
     (clusters_disjoint h ms \<longrightarrow>
        (\<forall>c \<in> set ms. \<forall>t \<in> set (snd c).
           storage_nbytes h' t = (if fst c = 0 then storage_nbytes h t else fst c)))"
proof (induction ms arbitrary: off r h)
  case Nil
  then show ?case by simp
next
  case (Cons c ms)
  obtain sz ts where c: "c = (sz, ts)" by (cases c)
  show ?case
  proof (cases "sz = 0")
    case True
    with Cons.prems c have "allocate_loop dbg mb ms (off, r, h) = Inr (off', r', h')"
      by simp
    from Cons.IH [OF this] show ?thesis
      using c True by (auto simp: cluster_storages_def)
  next
    case False
    obtain r1 h1 where b: "bind_cluster ts (ArenaPtr off) sz (r, h) = (r1, h1)"
      by (cases "bind_cluster ts (ArenaPtr off) sz (r, h)")
    from Cons.prems c False b
    have l: "allocate_loop dbg mb ms (off + sz, r1 - 1, h1) = Inr (off', r', h')"
      by (simp split: if_splits)
    note B = bind_cluster_heap [OF b]
    have cs: "\<And>ts'. cluster_storages h1 ts' = cluster_storages h ts'"
      using B by (simp add: cluster_storages_def)
    note I = Cons.IH [OF l, unfolded cs clusters_disjoint_cong [OF conjunct1 [OF B]]]
    have ts1: "tensor_storage h1 = tensor_storage h" using B by simp
    show ?thesis
    proof (intro conjI allI impI ballI)
      show "tensor_storage h' = tensor_storage h" using I B by simp
    next
      fix t assume "\<forall>c \<in> set (c # ms). tensor_storage h t \<notin> cluster_storages h (snd c)"
      then show "storage_nbytes h' t = storage_nbytes h t"
        using I B c by (simp add: ts1)
    next
      fix d t assume dj: "clusters_disjoint h (c # ms)" and d: "d \<in> set (c # ms)"
        and t: "t \<in> set (snd d)"
      have tin: "tensor_storage h t \<in> cluster_storages h (snd d)"
        using t by (simp add: cluster_storages_def)
      show "storage_nbytes h' t = (if fst d = 0 then storage_nbytes h t else fst d)"
      proof (cases "d \<in> set ms")
        case True
        have "cluster_storages h ts \<inter> cluster_storages h (snd d) = {}"
          using dj True c by auto
        then have "tensor_storage h t \<notin> cluster_storages h ts" using tin by auto
        then have "storage_nbytes h1 t = storage_nbytes h t" using B by simp
        moreover have "storage_nbytes h' t = (if fst d = 0 then storage_nbytes h1 t else fst d)"
          using I dj True t by simp
        ultimately show ?thesis by simp
      next
        case False
        then have dc: "d = c" using d by simp
        have "\<forall>e \<in> set ms. tensor_storage h t \<notin> cluster_storages h (snd e)"
          using dj tin dc by auto
        then have "storage_nbytes h' t = storage_nbytes h1 t"
          using I by (simp add: ts1)
        moreover have "storage_nbytes h1 t = sz"
          using B tin dc c by simp
        ultimately show ?thesis using dc c \<open>sz \<noteq> 0\<close> by simp
      qed
    qed
  qed
qed

lemma planner_reachable_aligned:
  "planner_reachable (2 ^ k) ph \<Longrightarrow> \<forall>c \<in> set (managed_tensors (fst ph)). aligned_size (2 ^ k) (fst c)"
proof (induction rule: planner_reachable.induct)
  case (constructed p h)
  then show ?case by (auto simp: aligned_size_zero)
next
  case (nodes_ran p h h')
  then show ?case by simp
next
  case (allocated p h dbg p' h')
  from allocated.hyps(2) have "managed_tensors p' = managed_tensors p"
    by (auto simp: allocate_def allocate_buffer_def Let_def split: if_splits sum.splits)
  with allocated.IH show ?case by simp
next
  case (deallocated p h)
  then have "\<forall>c \<in> set (fst (dealloc_loop (2 ^ k) (managed_tensors p) (0, h))).
      aligned_size (2 ^ k) (fst c)"
    by (intro dealloc_loop_aligned) simp
  then show ?case by (simp add: deallocate_def split: prod.splits)
qed

text \<open>
  C3 (amended). From a state reached at the end of a deallocate, in which no storage is
  reached from the tensors of two different clusters, allocate followed by deallocate with
  no node run in between leaves managed_bytes unchanged.
\<close>

theorem allocate_deallocate_managed_bytes:
  assumes reach: "planner_reachable (2 ^ k) (p0, h0)"
    and d1: "deallocate (2 ^ k) p0 h0 = (p1, h1)"
    and disj: "clusters_disjoint h1 (managed_tensors p1)"
    and a: "allocate dbg p1 h1 = Inr (p2, h2)"
  shows "managed_bytes (fst (deallocate (2 ^ k) p2 h2)) = managed_bytes p1"
proof -
  obtain ms1 mb1 g1 where l1: "dealloc_loop (2 ^ k) (managed_tensors p0) (0, h0) = (ms1, mb1, g1)"
    by (cases "dealloc_loop (2 ^ k) (managed_tensors p0) (0, h0)")
  have p1: "managed_tensors p1 = ms1" "managed_bytes p1 = mb1"
    and h1: "h1 = reset_ivalues (unmanaged_ivalues p0) g1"
    using d1 l1 by (auto simp: deallocate_def)
  have "planner_reachable (2 ^ k) (p1, h1)"
    using planner_reachable.deallocated [OF reach] d1 by simp
  then have al: "\<forall>c \<in> set ms1. aligned_size (2 ^ k) (fst c)"
    using planner_reachable_aligned [of k "(p1, h1)"] p1 by simp
  have sum1: "mb1 = sum_list (map fst ms1)"
    using dealloc_loop_sum [of "2 ^ k" "managed_tensors p0" 0 h0] l1 by simp
  have sn: "map snd ms1 = map snd (managed_tensors p0)"
    using dealloc_loop_clusters [of "2 ^ k" "managed_tensors p0" 0 h0] l1 by simp
  have zero: "\<forall>c \<in> set ms1. \<forall>t \<in> set (snd c). storage_nbytes h1 t = 0"
  proof (intro ballI)
    fix c t assume c: "c \<in> set ms1" and t: "t \<in> set (snd c)"
    have "snd c \<in> set (map snd (managed_tensors p0))"
      using c sn by (metis image_eqI set_map)
    then obtain c0 where c0: "c0 \<in> set (managed_tensors p0)" "snd c0 = snd c" by auto
    have "tensor_storage h0 t \<in> cluster_storages h0 (snd c0)"
      using t c0 by (simp add: cluster_storages_def)
    then have "storage_nbytes g1 t = 0"
      using dealloc_loop_heap [OF l1] c0 by auto
    then show "storage_nbytes h1 t = 0" by (simp add: h1)
  qed
  have ms2: "managed_tensors p2 = ms1"
    using a p1 by (auto simp: allocate_def allocate_buffer_def Let_def split: if_splits sum.splits)
  have fit: "sizes_fit h2 ms1"
  proof (cases "mb1 = 0")
    case True
    then have "h2 = h1" using a p1 by (simp add: allocate_def)
    then show ?thesis using zero by (simp add: sizes_fit_def)
  next
    case False
    then obtain off r where
      l: "allocate_loop dbg mb1 ms1 (0, 0, h1) = Inr (off, r, h2)"
      using a p1 by (auto simp: allocate_def allocate_buffer_def Let_def split: if_splits sum.splits)
    have "\<forall>c \<in> set ms1. \<forall>t \<in> set (snd c).
        storage_nbytes h2 t = (if fst c = 0 then storage_nbytes h1 t else fst c)"
      using allocate_loop_heap [OF l] disj p1 by simp
    then show ?thesis using zero by (auto simp: sizes_fit_def)
  qed
  have "fst (snd (dealloc_loop (2 ^ k) ms1 (0, h2))) = 0 + sum_list (map fst ms1)"
    using dealloc_loop_fit [OF fit al, of 0] by simp
  then show ?thesis
    using ms2 sum1 p1 by (auto simp: deallocate_def split: prod.splits)
qed


theorem allocate_deallocate_managed_bytes_witness:
  "planner_reachable (2 ^ 6) (ex_planner, ex_heap) \<and>
   clusters_disjoint (snd (deallocate (2 ^ 6) ex_planner ex_heap))
     (managed_tensors (fst (deallocate (2 ^ 6) ex_planner ex_heap))) \<and>
   managed_bytes (fst (deallocate (2 ^ 6) ex_planner ex_heap)) = 128 \<and>
   (\<exists>p2 h2. allocate True (fst (deallocate (2 ^ 6) ex_planner ex_heap))
               (snd (deallocate (2 ^ 6) ex_planner ex_heap)) = Inr (p2, h2)
            \<and> managed_bytes (fst (deallocate (2 ^ 6) p2 h2)) = 128)"
proof -
  obtain p1 h1 where d: "deallocate (2 ^ 6) ex_planner ex_heap = (p1, h1)"
    by (cases "deallocate (2 ^ 6) ex_planner ex_heap")
  have r: "planner_reachable (2 ^ 6) (ex_planner, ex_heap)"
    by (rule planner_reachable.constructed) (simp_all add: ex_planner_def)
  have mb: "managed_bytes p1 = 128"
    using d [symmetric] by (simp add: planner_defs)
  have dj: "clusters_disjoint h1 (managed_tensors p1)"
    using d [symmetric] by (simp add: planner_defs cluster_storages_def)
  obtain p2 h2 where a: "allocate True p1 h1 = Inr (p2, h2)"
    using d [symmetric] by (simp add: planner_defs)
  from allocate_deallocate_managed_bytes [OF r d dj a] mb
  have "managed_bytes (fst (deallocate (2 ^ 6) p2 h2)) = 128" by simp
  with r dj mb a d show ?thesis by auto
qed

text \<open>
  With a storage reached from two clusters the amount grows: the clusters learn 64 and 128
  bytes (192 in all); allocate writes 64 and then 128 into the shared storage, and the next
  deallocate learns 128 for the first cluster (256 in all).
\<close>

theorem allocate_deallocate_managed_bytes_counterexample:
  "planner_reachable 64 (ex_shared_planner, ex_shared_heap) \<and>
   (case deallocate 64 ex_shared_planner ex_shared_heap of
      (p1, h1) \<Rightarrow>
        managed_bytes p1 = 192 \<and>
        (case allocate True p1 h1 of
           Inl e \<Rightarrow> False
         | Inr (p2, h2) \<Rightarrow> managed_bytes (fst (deallocate 64 p2 h2)) = 256))"
proof -
  have "planner_reachable 64 (ex_shared_planner, ex_shared_heap)"
    by (rule planner_reachable.constructed) (simp_all add: ex_shared_planner_def)
  then show ?thesis
    by (simp add: planner_defs ex_shared_heap_def ex_shared_planner_def)
qed

subsection \<open>The overlap check of a processed node\<close>

lemma some_output_overlaps_iff:
  "some_output_overlaps ovl h i outs =
     (\<exists>out \<in> set outs. isTensor (ivalues h out) \<and> ovl h i out \<noteq> NO)"
  by (induction outs) auto

lemma some_input_overlaps_iff:
  "some_input_overlaps ovl h ins outs =
     (\<exists>i \<in> set ins. \<exists>out \<in> set outs.
        isTensor (ivalues h i) \<and> isTensor (ivalues h out) \<and> ovl h i out \<noteq> NO)"
  by (induction ins) (auto simp: some_output_overlaps_iff)

lemma status_not_NO_iff: "(s \<noteq> NO) = (s \<in> {FULL, PARTIAL, TOO_HARD})"
  by (cases s) simp_all

text \<open>
  Where the probe answers something other than \<^verbatim>\<open>NO\<close> exactly for the tensors whose storages
  overlap, the check of an immutable schema fails exactly when the storage of a tensor input
  overlaps the storage of a tensor output.
\<close>

lemma verify_outputs_exact_probe:
  assumes "n_schema (pn_node pn) = Some False"
    and "\<And>i out. i \<in> set (pn_inputs pn) \<Longrightarrow> out \<in> set (pn_outputs idx pn) \<Longrightarrow>
           isTensor (ivalues h i) \<Longrightarrow> isTensor (ivalues h out) \<Longrightarrow>
           (get_overlap_status env h i out \<noteq> NO) = storages_overlap h i out"
  shows "(\<not> verify_outputs_not_overlapping_with_immutable_inputs env h idx pn) =
         (\<exists>i \<in> set (pn_inputs pn). \<exists>out \<in> set (pn_outputs idx pn).
            isTensor (ivalues h i) \<and> isTensor (ivalues h out) \<and> storages_overlap h i out)"
  using assms
  by (auto simp: verify_outputs_not_overlapping_with_immutable_inputs_def some_input_overlaps_iff)

text \<open>
  C9 (amended). verify_outputs_not_overlapping_with_immutable_inputs returns true when the
  node has no schema or a mutable one; for an immutable schema it returns false exactly when
  \<^verbatim>\<open>get_overlap_status\<close> reports something other than \<^verbatim>\<open>NO\<close> (that is \<^verbatim>\<open>FULL\<close>, \<^verbatim>\<open>PARTIAL\<close> or
  \<^verbatim>\<open>TOO_HARD\<close>) for a tensor input and a tensor output. In a debug build a run whose check
  fails stops at the \<^verbatim>\<open>DCHECK\<close>.
\<close>

theorem verify_outputs_not_overlapping_spec:
  "(n_schema (pn_node pn) = None \<or> n_schema (pn_node pn) = Some True
      \<longrightarrow> verify_outputs_not_overlapping_with_immutable_inputs env h idx pn)
   \<and> (n_schema (pn_node pn) = Some False \<longrightarrow>
        (\<not> verify_outputs_not_overlapping_with_immutable_inputs env h idx pn) =
        (\<exists>i \<in> set (pn_inputs pn). \<exists>out \<in> set (pn_outputs idx pn).
           isTensor (ivalues h i) \<and> isTensor (ivalues h out)
           \<and> get_overlap_status env h i out \<in> {FULL, PARTIAL, TOO_HARD}))
   \<and> (debug_build env \<and> \<not> verify_outputs_not_overlapping_with_immutable_inputs env h idx pn
        \<longrightarrow> ProcessedNode_run env idx pn h = (h, Some DCheckFailed))"
  unfolding status_not_NO_iff [symmetric]
  by (auto simp: verify_outputs_not_overlapping_with_immutable_inputs_def
        some_input_overlaps_iff ProcessedNode_run_def)

theorem verify_outputs_not_overlapping_spec_witness:
  "n_schema (pn_node ex_relu_pnode) = Some False
   \<and> \<not> verify_outputs_not_overlapping_with_immutable_inputs ex_env ex_overlap_heap 0 ex_relu_pnode
   \<and> ProcessedNode_run ex_env 0 ex_relu_pnode ex_overlap_heap = (ex_overlap_heap, Some DCheckFailed)
   \<and> verify_outputs_not_overlapping_with_immutable_inputs ex_env ex_overlap_heap 0
        (ex_relu_pnode\<lparr>pn_node := ex_relu_node\<lparr>n_schema := None\<rparr>\<rparr>)"
  using verify_outputs_not_overlapping_spec [of ex_relu_pnode ex_env ex_overlap_heap 0]
    verify_outputs_not_overlapping_spec
      [of "ex_relu_pnode\<lparr>pn_node := ex_relu_node\<lparr>n_schema := None\<rparr>\<rparr>" ex_env ex_overlap_heap 0]
  by (simp add: ex_relu_pnode_def ex_relu_node_def ex_env_def ex_overlap_heap_def pn_outputs_def)

text \<open>
  C9 as it was stated fails in both directions. The node \<open>y = relu(x)\<close> has an immutable
  schema, one tensor input and one tensor output. On two storages in two allocations, which
  do not overlap, a probe that answers \<^verbatim>\<open>TOO_HARD\<close> makes the check return false and a debug
  build stop. On one storage of 16 bytes, which overlaps itself, a probe that answers \<^verbatim>\<open>NO\<close>
  lets the check return true.
\<close>

theorem verify_outputs_not_overlapping_counterexample:
  "n_schema (pn_node ex_relu_pnode) = Some False
   \<and> pn_inputs ex_relu_pnode = [InputSlot 0]
   \<and> pn_outputs 0 ex_relu_pnode = [OutSlot 0 0]
   \<and> isTensor (ivalues ex_separate_heap (InputSlot 0))
   \<and> isTensor (ivalues ex_separate_heap (OutSlot 0 0))
   \<and> tensor_storage ex_separate_heap (InputSlot 0) \<noteq> tensor_storage ex_separate_heap (OutSlot 0 0)
   \<and> \<not> storages_overlap ex_separate_heap (InputSlot 0) (OutSlot 0 0)
   \<and> get_overlap_status ex_env_too_hard ex_separate_heap (InputSlot 0) (OutSlot 0 0) = TOO_HARD
   \<and> \<not> verify_outputs_not_overlapping_with_immutable_inputs ex_env_too_hard ex_separate_heap 0
         ex_relu_pnode
   \<and> snd (ProcessedNode_run ex_env_too_hard 0 ex_relu_pnode ex_separate_heap) = Some DCheckFailed
   \<and> isTensor (ivalues ex_overlap_heap (InputSlot 0))
   \<and> isTensor (ivalues ex_overlap_heap (OutSlot 0 0))
   \<and> tensor_storage ex_overlap_heap (InputSlot 0) = tensor_storage ex_overlap_heap (OutSlot 0 0)
   \<and> storages_overlap ex_overlap_heap (InputSlot 0) (OutSlot 0 0)
   \<and> get_overlap_status ex_env_no ex_overlap_heap (InputSlot 0) (OutSlot 0 0) = NO
   \<and> verify_outputs_not_overlapping_with_immutable_inputs ex_env_no ex_overlap_heap 0 ex_relu_pnode"
  by (simp add: ex_relu_pnode_def ex_relu_node_def ex_env_def ex_env_too_hard_def ex_env_no_def
        ex_separate_heap_def ex_overlap_heap_def pn_outputs_def storages_overlap_def
        storage_nbytes_def verify_outputs_not_overlapping_with_immutable_inputs_def
        ProcessedNode_run_def)

subsection \<open>What the steps of a run leave unchanged\<close>

lemma allocate_if_planned_fields:
  "allocate_if_planned env rt = Inr rt1 \<Longrightarrow>
     rt_module rt1 = rt_module rt \<and> rt_leak_checks rt1 = rt_leak_checks rt
     \<and> (rt_planner rt = None \<longrightarrow> rt1 = rt)"
  by (auto simp: allocate_if_planned_def split: option.splits sum.splits)

lemma set_inputs_fields:
  "set_inputs env rt args kwargs = (rt2, r) \<Longrightarrow>
     rt_module rt2 = rt_module rt \<and> rt_leak_checks rt2 = rt_leak_checks rt
     \<and> rt_planner rt2 = rt_planner rt \<and> rt_nodes rt2 = rt_nodes rt"
  by (auto simp: set_inputs_def Let_def split: if_splits sum.splits prod.splits option.splits)

lemma deallocate_planner_fields:
  "deallocate A p h = (p', h') \<Longrightarrow> buffer p' = None \<and> buffers_acquired p' = buffers_acquired p"
  by (auto simp: deallocate_def split: prod.splits)

lemma MemoryPlanner_ctor_fields:
  "MemoryPlanner_ctor env rt ss ev a b = Inr p \<Longrightarrow> buffers_acquired p = [] \<and> buffer p = None
     \<and> managed_bytes p = 0"
  by (auto simp: MemoryPlanner_ctor_def Let_def split: sum.splits)

lemma cleanup_after_run_fields:
  "cleanup_after_run env rt = Inr rt4 \<Longrightarrow>
     rt_module rt4 = rt_module rt \<and> rt_leak_checks rt4 = rt_leak_checks rt
     \<and> (rt_planner rt = None \<longrightarrow>
          (\<exists>p. rt_planner rt4 = Some p \<and> buffers_acquired p = [] \<and> buffer p = None))"
  by (auto simp: cleanup_after_run_def Let_def clean_up_input_ivalues_def
        split: option.splits sum.splits prod.splits
        dest!: MemoryPlanner_ctor_fields deallocate_planner_fields)

lemma return_outputs_fields:
  "rt_planner (fst (return_outputs env rt)) = rt_planner rt
   \<and> rt_leak_checks (fst (return_outputs env rt)) =
       (if debug_build env \<and> num_outputs (rt_module rt) \<le> 1
        then Suc (rt_leak_checks rt) else rt_leak_checks rt)"
  by (auto simp: return_outputs_def Let_def move_out_def
        split: sum.splits prod.splits list.splits)

lemma invoke_leak_checks:
  "rt_leak_checks (fst (invoke env rt args kwargs)) = rt_leak_checks rt
   \<or> (rt_leak_checks (fst (invoke env rt args kwargs)) = Suc (rt_leak_checks rt)
       \<and> debug_build env \<and> num_outputs (rt_module rt) \<le> 1)"
proof (cases "allocate_if_planned env rt")
  case (Inl e)
  then show ?thesis by (simp add: invoke_def)
next
  case (Inr rt1)
  note f1 = allocate_if_planned_fields [OF Inr]
  obtain rt2 r where s: "set_inputs env rt1 args kwargs = (rt2, r)"
    by (cases "set_inputs env rt1 args kwargs")
  note f2 = set_inputs_fields [OF s]
  show ?thesis
  proof (cases r)
    case (Some e)
    then show ?thesis using Inr s f1 f2 by (simp add: invoke_def)
  next
    case None
    obtain h3 r3 where n: "run_nodes env 0 (rt_nodes rt2) (rt_heap rt2) = (h3, r3)"
      by (cases "run_nodes env 0 (rt_nodes rt2) (rt_heap rt2)")
    show ?thesis
    proof (cases r3)
      case (Some e)
      then show ?thesis using Inr s None n f1 f2 by (simp add: invoke_def)
    next
      case r3: None
      define rt3 where "rt3 = rt2\<lparr>rt_heap := h3\<rparr>"
      have f3: "rt_module rt3 = rt_module rt" "rt_leak_checks rt3 = rt_leak_checks rt"
        using f1 f2 by (simp_all add: rt3_def)
      show ?thesis
      proof (cases "if cleanup_activations (sm_opts (rt_module rt2))
                    then cleanup_after_run env rt3 else Inr rt3")
        case (Inl e)
        then show ?thesis using Inr s None n r3 f3
          by (auto simp: invoke_def rt3_def split: if_splits)
      next
        case c: (Inr rt4)
        have f4: "rt_module rt4 = rt_module rt" "rt_leak_checks rt4 = rt_leak_checks rt"
          using c f3 cleanup_after_run_fields [of env rt3 rt4] by (auto split: if_splits)
        have "invoke env rt args kwargs = return_outputs env rt4"
          using Inr s None n r3 c by (auto simp: invoke_def rt3_def split: if_splits)
        then show ?thesis using return_outputs_fields [of env rt4] f4 by auto
      qed
    qed
  qed
qed

text \<open>
  C10 (amended). Inside invoke the leak check is reached only in a debug build and only when
  the module has at most one output: with more than one output invoke returns the tuple
  before the check. check_for_memory_leak returns at once, verifying nothing, when
  cleanup_activations is false.
\<close>

theorem leak_check_reached:
  "(1 < num_outputs (rt_module rt)
      \<longrightarrow> rt_leak_checks (fst (invoke env rt args kwargs)) = rt_leak_checks rt)
   \<and> (rt_leak_checks (fst (invoke env rt args kwargs)) \<noteq> rt_leak_checks rt
      \<longrightarrow> debug_build env \<and> num_outputs (rt_module rt) \<le> 1)
   \<and> (\<not> cleanup_activations (sm_opts (rt_module rt))
      \<longrightarrow> check_for_memory_leak env rt output_returned = Inr ())"
  using invoke_leak_checks [of env rt args kwargs]
  by (auto simp: check_for_memory_leak_def)


lemmas runtime_defs = StaticRuntime_ctor_def hook_up_input_def resolve_def_def INPUT_VALUE_def
  CONSTANT_VALUE_def num_inputs_def num_outputs_def invoke_def allocate_if_planned_def
  set_inputs_def ProcessedNode_run_def verify_outputs_not_overlapping_with_immutable_inputs_def
  pn_outputs_def cleanup_after_run_def MemoryPlanner_ctor_def managed_tensor_values_of_def
  leaked_values_of_def has_out_variant_def deallocate_def clean_up_input_ivalues_def
  return_outputs_def check_for_memory_leak_def TORCH_CHECK_def move_out_def fresh_ivalues_def
  ex_env_def ex_opts_def ex_empty_module_def ex_relu_module_def ex_relu_node_def
  ex_relu_pnode_def ex_heap_def ex_relu_module2_def ex_relu_module_no_cleanup_def
  ex_relu_runtime_def

lemma ex_ctor: "StaticRuntime_ctor ex_env ex_heap ex_relu_module = Inr (ex_relu_runtime ex_relu_module)"
  by (simp add: runtime_defs)


text \<open>
  A module with no output: invoke reaches the check (and only then fails to read
  \<^verbatim>\<open>outputs_[0]\<close>), so "exactly one output" is too strong.
\<close>

theorem leak_check_reached_counterexample:
  "(case StaticRuntime_ctor ex_env ex_heap ex_empty_module of
      Inl e \<Rightarrow> False
    | Inr rt \<Rightarrow>
        num_outputs (rt_module rt) = 0 \<and> rt_leak_checks rt = 0
        \<and> rt_leak_checks (fst (invoke ex_env rt [] [])) = 1)"
  by (simp add: runtime_defs Let_def)

theorem leak_check_reached_witness:
  "num_outputs (rt_module (ex_relu_runtime ex_relu_module)) = 1
   \<and> debug_build ex_env
   \<and> rt_leak_checks (fst (invoke ex_env (ex_relu_runtime ex_relu_module) [IVTensor True] [])) = 1
   \<and> snd (invoke ex_env (ex_relu_runtime ex_relu_module) [IVTensor True] []) = Inr (IVTensor True)
   \<and> num_outputs (rt_module (ex_relu_runtime ex_relu_module2)) = 2
   \<and> rt_leak_checks (fst (invoke ex_env (ex_relu_runtime ex_relu_module2) [IVTensor True] [])) = 0
   \<and> \<not> cleanup_activations (sm_opts (rt_module (ex_relu_runtime ex_relu_module_no_cleanup)))
   \<and> check_for_memory_leak ex_env (ex_relu_runtime ex_relu_module_no_cleanup) True = Inr ()"
proof -
  have a: "rt_leak_checks (fst (invoke ex_env (ex_relu_runtime ex_relu_module) [IVTensor True] [])) = 1"
    and b: "snd (invoke ex_env (ex_relu_runtime ex_relu_module) [IVTensor True] []) = Inr (IVTensor True)"
    by (simp_all add: runtime_defs Let_def)
  have c: "1 < num_outputs (rt_module (ex_relu_runtime ex_relu_module2))"
    and c': "num_outputs (rt_module (ex_relu_runtime ex_relu_module2)) = 2"
    by (simp_all add: runtime_defs)
  have d: "\<not> cleanup_activations (sm_opts (rt_module (ex_relu_runtime ex_relu_module_no_cleanup)))"
    by (simp add: runtime_defs)
  have e: "num_outputs (rt_module (ex_relu_runtime ex_relu_module)) = 1" "debug_build ex_env"
    by (simp_all add: runtime_defs)
  from leak_check_reached [of "ex_relu_runtime ex_relu_module2" ex_env "[IVTensor True]" "[]" True] c
  have f: "rt_leak_checks (fst (invoke ex_env (ex_relu_runtime ex_relu_module2) [IVTensor True] [])) = 0"
    by (simp add: ex_relu_runtime_def)
  from leak_check_reached [of "ex_relu_runtime ex_relu_module_no_cleanup" ex_env "[]" "[]" True] d
  have g: "check_for_memory_leak ex_env (ex_relu_runtime ex_relu_module_no_cleanup) True = Inr ()"
    by simp
  from a b c' d e f g show ?thesis by simp
qed

subsection \<open>The first run\<close>

lemma StaticRuntime_ctor_planner:
  "StaticRuntime_ctor env h0 sm = Inr rt \<Longrightarrow> rt_planner rt = None"
  by (auto simp: StaticRuntime_ctor_def split: sum.splits)

lemma invoke_first_planner:
  assumes "rt_planner rt = None"
  shows "case rt_planner (fst (invoke env rt args kwargs)) of
           None \<Rightarrow> True
         | Some p \<Rightarrow> buffers_acquired p = [] \<and> buffer p = None"
proof -
  have a: "allocate_if_planned env rt = Inr rt"
    using assms by (simp add: allocate_if_planned_def)
  obtain rt2 r where s: "set_inputs env rt args kwargs = (rt2, r)"
    by (cases "set_inputs env rt args kwargs")
  have f2: "rt_planner rt2 = None" using set_inputs_fields [OF s] assms by simp
  show ?thesis
  proof (cases r)
    case (Some e)
    then show ?thesis using a s f2 by (simp add: invoke_def)
  next
    case None
    obtain h3 r3 where n: "run_nodes env 0 (rt_nodes rt2) (rt_heap rt2) = (h3, r3)"
      by (cases "run_nodes env 0 (rt_nodes rt2) (rt_heap rt2)")
    show ?thesis
    proof (cases r3)
      case (Some e)
      then show ?thesis using a s None n f2 by (simp add: invoke_def)
    next
      case r3: None
      define rt3 where "rt3 = rt2\<lparr>rt_heap := h3\<rparr>"
      have f3: "rt_planner rt3 = None" using f2 by (simp add: rt3_def)
      show ?thesis
      proof (cases "if cleanup_activations (sm_opts (rt_module rt2))
                    then cleanup_after_run env rt3 else Inr rt3")
        case (Inl e)
        then show ?thesis using a s None n r3 f3
          by (auto simp: invoke_def rt3_def split: if_splits)
      next
        case c: (Inr rt4)
        have f4: "case rt_planner rt4 of None \<Rightarrow> True
                  | Some p \<Rightarrow> buffers_acquired p = [] \<and> buffer p = None"
          using c f3 cleanup_after_run_fields [of env rt3 rt4] by (auto split: if_splits)
        have "invoke env rt args kwargs = return_outputs env rt4"
          using a s None n r3 c by (auto simp: invoke_def rt3_def split: if_splits)
        then show ?thesis using return_outputs_fields [of env rt4] f4 by simp
      qed
    qed
  qed
qed

text \<open>
  C4. A freshly constructed StaticRuntime has no planner; the allocate step of its first
  invoke changes nothing; the planner is still absent when the nodes run; whatever planner
  exists after the first invoke has acquired no buffer and holds none; and allocate returns
  without acquiring a buffer whenever managed_bytes is 0.
\<close>

theorem first_invoke_never_allocates:
  "StaticRuntime_ctor env h0 sm = Inr rt \<Longrightarrow>
     rt_planner rt = None
     \<and> allocate_if_planned env rt = Inr rt
     \<and> rt_planner (fst (set_inputs env rt args kwargs)) = None
     \<and> (case rt_planner (fst (invoke env rt args kwargs)) of
          None \<Rightarrow> True
        | Some p \<Rightarrow> buffers_acquired p = [] \<and> buffer p = None)
     \<and> (\<forall>p h. managed_bytes p = 0 \<longrightarrow> allocate (debug_build env) p h = Inr (p, h))"
proof -
  assume c: "StaticRuntime_ctor env h0 sm = Inr rt"
  note n = StaticRuntime_ctor_planner [OF c]
  have "rt_planner (fst (set_inputs env rt args kwargs)) = None"
    using set_inputs_fields [of env rt args kwargs] n
    by (cases "set_inputs env rt args kwargs") simp
  moreover have "allocate_if_planned env rt = Inr rt"
    using n by (simp add: allocate_if_planned_def)
  ultimately show ?thesis
    using n invoke_first_planner [OF n, of env args kwargs]
    by (simp add: allocate_def)
qed

theorem first_invoke_never_allocates_witness:
  "StaticRuntime_ctor ex_env ex_heap ex_relu_module = Inr (ex_relu_runtime ex_relu_module)
   \<and> snd (invoke ex_env (ex_relu_runtime ex_relu_module) [IVTensor True] []) = Inr (IVTensor True)
   \<and> (\<exists>p. rt_planner (fst (invoke ex_env (ex_relu_runtime ex_relu_module) [IVTensor True] [])) = Some p
          \<and> buffers_acquired p = [] \<and> buffer p = None)
   \<and> allocate True ex_planner ex_heap = Inr (ex_planner, ex_heap)"
proof -
  have b: "snd (invoke ex_env (ex_relu_runtime ex_relu_module) [IVTensor True] []) = Inr (IVTensor True)"
    by (simp add: runtime_defs Let_def)
  obtain p where p: "rt_planner (fst (invoke ex_env (ex_relu_runtime ex_relu_module) [IVTensor True] [])) = Some p"
    by (simp add: runtime_defs Let_def)
  have m: "managed_bytes ex_planner = 0" by (simp add: ex_planner_def)
  from first_invoke_never_allocates [OF ex_ctor, of "[IVTensor True]" "[]"] p m
  have "buffers_acquired p = [] \<and> buffer p = None"
    and "allocate True ex_planner ex_heap = Inr (ex_planner, ex_heap)"
    by (simp_all add: ex_env_def)
  with ex_ctor b p show ?thesis by simp
qed

subsection \<open>The always-alive values\<close>

lemma insert_aliases_superset: "aa \<subseteq> insert_aliases db vs aa"
proof (induction vs arbitrary: aa)
  case Nil
  then show ?case by simp
next
  case (Cons v vs)
  have "aa \<subseteq> (if mayContainAliasSets db {v} aa then insert v aa else aa)" by auto
  also have "\<dots> \<subseteq> insert_aliases db vs (if mayContainAliasSets db {v} aa then insert v aa else aa)"
    by (rule Cons.IH)
  finally show ?case by simp
qed

lemma insert_aliases_append:
  "insert_aliases db (xs @ ys) aa = insert_aliases db ys (insert_aliases db xs aa)"
  by (induction xs arbitrary: aa) simp_all

lemma insert_aliases_member:
  assumes "mayContainAliasSets db {v} (insert_aliases db pre aa)"
  shows "v \<in> insert_aliases db (pre @ v # post) aa"
proof -
  have "v \<in> insert_aliases db [v] (insert_aliases db pre aa)"
    using assms by simp
  also have "\<dots> \<subseteq> insert_aliases db post (insert_aliases db [v] (insert_aliases db pre aa))"
    by (rule insert_aliases_superset)
  finally show ?thesis by (simp add: insert_aliases_append)
qed

text \<open>
  C5. Every graph input, graph output and output of a constant node is in the set computed
  by GetAlwaysAliveValues. A non-constant node output is in it when the database says it may
  contain an alias of the set as it stands when the output is examined; hence, for a
  database whose answer is kept when the second collection grows, when it may contain an
  alias of the seeded set.
\<close>

theorem always_alive_contains:
  "(v \<in> set (g_inputs g) \<or> v \<in> set (g_outputs g)
      \<or> (\<exists>n \<in> set (g_nodes g). n_kind n = prim_Constant \<and> v \<in> set (n_outputs n))
     \<longrightarrow> v \<in> GetAlwaysAliveValues g db)
   \<and> (\<forall>pre post. non_constant_outputs g = pre @ v # post
         \<and> mayContainAliasSets db {v} (insert_aliases db pre (always_alive_seed g))
       \<longrightarrow> v \<in> GetAlwaysAliveValues g db)
   \<and> ((\<forall>a S T. S \<subseteq> T \<and> mayContainAliasSets db a S \<longrightarrow> mayContainAliasSets db a T)
        \<and> (\<exists>n \<in> set (g_nodes g). n_kind n \<noteq> prim_Constant \<and> v \<in> set (n_outputs n))
        \<and> mayContainAliasSets db {v} (always_alive_seed g)
       \<longrightarrow> v \<in> GetAlwaysAliveValues g db)"
proof (intro conjI impI allI)
  assume "v \<in> set (g_inputs g) \<or> v \<in> set (g_outputs g)
      \<or> (\<exists>n \<in> set (g_nodes g). n_kind n = prim_Constant \<and> v \<in> set (n_outputs n))"
  then have "v \<in> always_alive_seed g"
    by (auto simp: always_alive_seed_def constant_outputs_def is_constant_def)
  then show "v \<in> GetAlwaysAliveValues g db"
    using insert_aliases_superset [of "always_alive_seed g" db "non_constant_outputs g"]
    by (auto simp: GetAlwaysAliveValues_def)
next
  fix pre post
  assume "non_constant_outputs g = pre @ v # post
         \<and> mayContainAliasSets db {v} (insert_aliases db pre (always_alive_seed g))"
  then show "v \<in> GetAlwaysAliveValues g db"
    using insert_aliases_member [of db v pre "always_alive_seed g" post]
    by (simp add: GetAlwaysAliveValues_def)
next
  assume a: "(\<forall>a S T. S \<subseteq> T \<and> mayContainAliasSets db a S \<longrightarrow> mayContainAliasSets db a T)
        \<and> (\<exists>n \<in> set (g_nodes g). n_kind n \<noteq> prim_Constant \<and> v \<in> set (n_outputs n))
        \<and> mayContainAliasSets db {v} (always_alive_seed g)"
  then have "v \<in> set (non_constant_outputs g)"
    by (auto simp: non_constant_outputs_def is_constant_def)
  then obtain pre post where sp: "non_constant_outputs g = pre @ v # post"
    by (auto simp: in_set_conv_decomp)
  have "always_alive_seed g \<subseteq> insert_aliases db pre (always_alive_seed g)"
    by (rule insert_aliases_superset)
  with a have "mayContainAliasSets db {v} (insert_aliases db pre (always_alive_seed g))"
    by blast
  then show "v \<in> GetAlwaysAliveValues g db"
    using insert_aliases_member [of db v pre "always_alive_seed g" post] sp
    by (simp add: GetAlwaysAliveValues_def)
qed

theorem always_alive_contains_witness:
  "0 \<in> GetAlwaysAliveValues ex_chain_graph ex_view_db
   \<and> 4 \<in> GetAlwaysAliveValues ex_chain_graph ex_view_db
   \<and> mayContainAliasSets ex_view_db {1} (always_alive_seed ex_chain_graph)
   \<and> 1 \<in> GetAlwaysAliveValues ex_chain_graph ex_view_db
   \<and> 2 \<notin> GetAlwaysAliveValues ex_chain_graph ex_view_db"
proof -
  have mono: "\<forall>a S T. S \<subseteq> T \<and> mayContainAliasSets ex_view_db a S
      \<longrightarrow> mayContainAliasSets ex_view_db a T"
    by (auto simp: ex_view_db_def)
  have node: "\<exists>n \<in> set (g_nodes ex_chain_graph). n_kind n \<noteq> prim_Constant \<and> 1 \<in> set (n_outputs n)"
    by (simp add: ex_chain_graph_def ex_node_def prim_Constant_def)
  have seed: "mayContainAliasSets ex_view_db {1} (always_alive_seed ex_chain_graph)"
    by (simp add: ex_view_db_def ex_view_alias_def always_alive_seed_def ex_chain_graph_def
        constant_outputs_def is_constant_def ex_node_def prim_Constant_def)
  have i: "0 \<in> set (g_inputs ex_chain_graph)" and o: "4 \<in> set (g_outputs ex_chain_graph)"
    by (simp_all add: ex_chain_graph_def)
  have two: "2 \<notin> GetAlwaysAliveValues ex_chain_graph ex_view_db"
    by (simp add: GetAlwaysAliveValues_def ex_view_db_def ex_view_alias_def always_alive_seed_def
        ex_chain_graph_def constant_outputs_def non_constant_outputs_def is_constant_def
        ex_node_def prim_Constant_def)
  from always_alive_contains [of 0 ex_chain_graph ex_view_db] i
    always_alive_contains [of 4 ex_chain_graph ex_view_db] o
    always_alive_contains [of 1 ex_chain_graph ex_view_db] mono node seed two
  show ?thesis by blast
qed

subsection \<open>The candidates for memory planning\<close>

lemma mark_reuse_fields [simp]:
  "seen_values (mark_reuse c v st) = seen_values st"
  "all_values (mark_reuse c v st) = all_values st"
  "can_reuse (mark_reuse c v st) = (if c then insert v (can_reuse st) else can_reuse st)"
  "cannot_reuse (mark_reuse c v st) = (if c then cannot_reuse st else insert v (cannot_reuse st))"
  by (simp_all add: mark_reuse_def)

lemma scan_inputs_fields:
  "seen_values st = set (all_values st) \<Longrightarrow>
   seen_values (scan_inputs c vs st) = set (all_values (scan_inputs c vs st))
   \<and> set (all_values (scan_inputs c vs st)) = set (all_values st) \<union> set vs
   \<and> can_reuse (scan_inputs c vs st) = can_reuse st \<union> (if c then set vs else {})
   \<and> cannot_reuse (scan_inputs c vs st) = cannot_reuse st \<union> (if c then {} else set vs)"
proof (induction vs arbitrary: st)
  case Nil
  then show ?case by simp
next
  case (Cons v vs)
  let ?st1 = "mark_reuse c v
          (if v \<notin> seen_values st
           then st\<lparr>all_values := all_values st @ [v], seen_values := insert v (seen_values st)\<rparr>
           else st)"
  have s: "seen_values ?st1 = set (all_values ?st1)" using Cons.prems by auto
  have a: "set (all_values ?st1) = insert v (set (all_values st))" using Cons.prems by auto
  from Cons.IH [OF s] a show ?case by auto
qed

lemma scan_outputs_fields:
  "seen_values st = set (all_values st) \<Longrightarrow>
   seen_values (scan_outputs c vs st) = set (all_values (scan_outputs c vs st))
   \<and> set (all_values (scan_outputs c vs st)) = set (all_values st) \<union> set vs
   \<and> can_reuse (scan_outputs c vs st) = can_reuse st \<union> (if c then set vs else {})
   \<and> cannot_reuse (scan_outputs c vs st) = cannot_reuse st \<union> (if c then {} else set vs)"
proof (induction vs arbitrary: st)
  case Nil
  then show ?case by simp
next
  case (Cons v vs)
  let ?st1 = "mark_reuse c v
          (st\<lparr>all_values := all_values st @ [v], seen_values := insert v (seen_values st)\<rparr>)"
  have s: "seen_values ?st1 = set (all_values ?st1)" using Cons.prems by auto
  from Cons.IH [OF s] show ?case by auto
qed

lemma scan_nodes_fields:
  "seen_values st = set (all_values st) \<Longrightarrow>
   seen_values (scan_nodes cr ns st) = set (all_values (scan_nodes cr ns st))
   \<and> set (all_values (scan_nodes cr ns st)) = set (all_values st) \<union> (\<Union>n \<in> set ns. touched n)
   \<and> can_reuse (scan_nodes cr ns st) = can_reuse st \<union> (\<Union>n \<in> {n \<in> set ns. cr n}. touched n)
   \<and> cannot_reuse (scan_nodes cr ns st) = cannot_reuse st \<union> (\<Union>n \<in> {n \<in> set ns. \<not> cr n}. touched n)"
proof (induction ns arbitrary: st)
  case Nil
  then show ?case by simp
next
  case (Cons n ns)
  let ?s1 = "scan_inputs (cr n) (n_inputs n) st"
  let ?s2 = "scan_outputs (cr n) (n_outputs n) ?s1"
  note i = scan_inputs_fields [OF Cons.prems, of "cr n" "n_inputs n"]
  note o = scan_outputs_fields [OF conjunct1 [OF i], of "cr n" "n_outputs n"]
  from Cons.IH [OF conjunct1 [OF o]] i o show ?case
    by (auto simp: touched_def)
qed

lemma set_pick_optimizable: "set (pick_optimizable vs can) = set vs \<inter> can"
  by (induction vs arbitrary: can) auto

lemma distinct_pick_optimizable: "distinct (pick_optimizable vs can)"
  by (induction vs arbitrary: can) (auto simp: set_pick_optimizable)

text \<open>
  C2 (amended). A value is a reuse candidate exactly when some node reads or produces it and
  every node that does satisfies canReuseInputsOutputs. GetMemoryPlanningCandidates does not
  consult the always-alive set; an always-alive candidate is passed over by the walk of
  GenerateSameStorageValues.
\<close>

theorem memory_planning_candidates_iff:
  "(v \<in> set (fst (GetMemoryPlanningCandidates canReuse g))) =
     ((\<exists>n \<in> set (g_nodes g). v \<in> set (n_inputs n) \<union> set (n_outputs n))
      \<and> (\<forall>n \<in> set (g_nodes g). v \<in> set (n_inputs n) \<union> set (n_outputs n) \<longrightarrow> canReuse n))
   \<and> (v \<in> always_alive \<longrightarrow>
        reuse_storage dbg alive_during always_alive (v # vs) (seen, m) =
        reuse_storage dbg alive_during always_alive vs (seen, m))"
proof -
  let ?st0 = "\<lparr>seen_values = {}, all_values = [], can_reuse = {}, cannot_reuse = {}\<rparr>"
  have "seen_values ?st0 = set (all_values ?st0)" by simp
  from scan_nodes_fields [OF this, of canReuse "g_nodes g"]
  show ?thesis
    by (auto simp: GetMemoryPlanningCandidates_def Let_def set_pick_optimizable touched_def)
qed

theorem memory_planning_candidates_iff_witness:
  "fst (GetMemoryPlanningCandidates (\<lambda>n. True) ex_relu_graph) = [0, 1]
   \<and> fst (GetMemoryPlanningCandidates (\<lambda>n. False) ex_relu_graph) = []
   \<and> reuse_storage True Map.empty {0, 1} [0] ([], [(0, [0]), (1, [1])]) = Inr ([], [(0, [0]), (1, [1])])"
  using memory_planning_candidates_iff [of 0 "\<lambda>n. True" ex_relu_graph "{0, 1}" True Map.empty "[]" "[]"
      "[(0, [0]), (1, [1])]"]
    memory_planning_candidates_iff [of 0 "\<lambda>n. False" ex_relu_graph "{0, 1}" True Map.empty "[]" "[]"
      "[(0, [0]), (1, [1])]"]
  by (simp add: GetMemoryPlanningCandidates_def ex_relu_graph_def ex_relu_node_def mark_reuse_def)

text \<open>
  The input of the graph \<open>y = relu(x)\<close> is always alive and is a candidate.
\<close>

theorem memory_planning_candidates_counterexample:
  "0 \<in> set (g_inputs ex_relu_graph)
   \<and> 0 \<in> GetAlwaysAliveValues ex_relu_graph ex_db
   \<and> 0 \<in> set (fst (GetMemoryPlanningCandidates (\<lambda>n. True) ex_relu_graph))"
  by (simp add: GetMemoryPlanningCandidates_def GetAlwaysAliveValues_def always_alive_seed_def
      non_constant_outputs_def constant_outputs_def is_constant_def prim_Constant_def
      ex_relu_graph_def ex_relu_node_def ex_db_def mark_reuse_def)

subsection \<open>Sharing a storage\<close>

lemma set_unique_values: "set (unique_values xs acc) = set xs \<union> set acc"
  by (induction xs arbitrary: acc) auto

lemma map_of_fold_update:
  "map_of (fold (\<lambda>v m'. AList.update v vals m') vs m) w =
     (if w \<in> set vs then Some vals else map_of m w)"
  by (induction vs arbitrary: m) (auto simp: update_conv')

lemma share_storage_fn_result:
  assumes "share_storage_fn dbg new_v old_v m = Inr m'" and "new_v \<noteq> old_v"
  obtains olds news vals where
    "map_of m old_v = Some olds" "map_of m new_v = Some news"
    "set vals = set olds \<union> set news"
    "\<And>w. map_of m' w = (if w \<in> set vals then Some vals else map_of m w)"
proof -
  from assms obtain olds news where
    o: "map_of m old_v = Some olds" and n: "map_of m new_v = Some news"
    and m': "m' = fold (\<lambda>v m'. AList.update v (unique_values news (unique_values olds []))  m')
                 (unique_values news (unique_values olds [])) m"
    by (simp add: share_storage_fn_def Let_def split: if_splits option.splits)
  show ?thesis
  proof (rule that [OF o n])
    show "set (unique_values news (unique_values olds [])) = set olds \<union> set news"
      by (auto simp: set_unique_values)
    show "\<And>w. map_of m' w = (if w \<in> set (unique_values news (unique_values olds []))
        then Some (unique_values news (unique_values olds [])) else map_of m w)"
      by (simp add: m' map_of_fold_update)
  qed
qed

lemma share_storage_fn_consistent:
  assumes "share_storage_fn dbg new_v old_v m = Inr m'" and c: "clusters_consistent m"
  shows "clusters_consistent m'"
proof (cases "new_v = old_v")
  case True
  with assms show ?thesis by (simp add: share_storage_fn_def)
next
  case False
  from share_storage_fn_result [OF assms(1) False] obtain olds news vals where
    o: "map_of m old_v = Some olds" and n: "map_of m new_v = Some news"
    and v: "set vals = set olds \<union> set news"
    and m': "\<And>w. map_of m' w = (if w \<in> set vals then Some vals else map_of m w)"
    by blast
  have closed: "\<And>u cl. map_of m u = Some cl \<Longrightarrow> u \<notin> set vals \<Longrightarrow> set cl \<inter> set vals = {}"
  proof (rule ccontr)
    fix u cl assume u: "map_of m u = Some cl" "u \<notin> set vals" and ne: "set cl \<inter> set vals \<noteq> {}"
    then obtain x where x: "x \<in> set cl" "x \<in> set vals" by auto
    have xc: "map_of m x = Some cl" using c u(1) x(1) unfolding clusters_consistent_def by blast
    have uc: "u \<in> set cl" using c u(1) unfolding clusters_consistent_def by blast
    from x(2) v have "x \<in> set olds \<or> x \<in> set news" by auto
    moreover have "x \<in> set olds \<Longrightarrow> map_of m x = Some olds"
      using c o unfolding clusters_consistent_def by blast
    moreover have "x \<in> set news \<Longrightarrow> map_of m x = Some news"
      using c n unfolding clusters_consistent_def by blast
    ultimately have "cl = olds \<or> cl = news" using xc by auto
    with uc v u(2) show False by auto
  qed
  show ?thesis
    unfolding clusters_consistent_def
  proof (intro allI impI)
    fix u cl assume u: "map_of m' u = Some cl"
    show "u \<in> set cl \<and> (\<forall>w \<in> set cl. map_of m' w = Some cl)"
    proof (cases "u \<in> set vals")
      case True
      with u m' have "cl = vals" by simp
      with True m' show ?thesis by simp
    next
      case False
      with u m' have mu: "map_of m u = Some cl" by simp
      from closed [OF mu False] have d: "set cl \<inter> set vals = {}" .
      from c mu have "u \<in> set cl" "\<forall>w \<in> set cl. map_of m w = Some cl"
        unfolding clusters_consistent_def by blast+
      with d m' show ?thesis by (simp add: disjoint_iff)
    qed
  qed
qed

text \<open>What a merge does to the clusters: the two clusters become one, the others stay.\<close>

lemma share_storage_fn_cluster:
  assumes "share_storage_fn dbg new_v old_v m = Inr m'" and "clusters_consistent m"
    and "map_of m' u = Some cl" and "w \<in> set cl"
  shows "(\<exists>cl0. map_of m u = Some cl0 \<and> w \<in> set cl0)
       \<or> (new_v \<noteq> old_v \<and> u \<in> cluster_of m old_v \<union> cluster_of m new_v
            \<and> w \<in> cluster_of m old_v \<union> cluster_of m new_v)"
proof (cases "new_v = old_v")
  case True
  with assms show ?thesis by (auto simp: share_storage_fn_def)
next
  case False
  from share_storage_fn_result [OF assms(1) False] obtain olds news vals where
    o: "map_of m old_v = Some olds" and n: "map_of m new_v = Some news"
    and v: "set vals = set olds \<union> set news"
    and m': "\<And>w. map_of m' w = (if w \<in> set vals then Some vals else map_of m w)"
    by blast
  show ?thesis
  proof (cases "u \<in> set vals")
    case True
    with assms(3) m' have "cl = vals" by simp
    with True assms(4) v o n False show ?thesis by (auto simp: cluster_of_def)
  next
    case False
    with assms(3,4) m' show ?thesis by auto
  qed
qed


subsection \<open>Links through the alias database\<close>

lemma alias_linked_refl: "alias_linked db u u"
  by (simp add: alias_linked_def)

lemma alias_linked_sym: "alias_linked db u v \<Longrightarrow> alias_linked db v u"
proof -
  have s: "sym {(a, b). mayAlias db a b \<or> mayAlias db b a}"
    by (auto simp: sym_def)
  assume "alias_linked db u v"
  then show ?thesis
    unfolding alias_linked_def using sym_rtrancl [OF s] by (auto simp: sym_def)
qed

lemma alias_linked_trans: "alias_linked db u v \<Longrightarrow> alias_linked db v w \<Longrightarrow> alias_linked db u w"
  unfolding alias_linked_def by (rule rtrancl_trans)

lemma alias_linked_step: "mayAlias db p v \<Longrightarrow> alias_linked db p v"
  unfolding alias_linked_def by (rule r_into_rtrancl) simp

lemma cluster_of_Some: "u \<in> cluster_of m x \<Longrightarrow> \<exists>cl. map_of m x = Some cl \<and> u \<in> set cl"
  by (cases "map_of m x") (simp_all add: cluster_of_def)

lemma cluster_of_member:
  assumes c: "clusters_consistent m" and u: "u \<in> cluster_of m x"
  shows "map_of m u = map_of m x \<and> x \<in> cluster_of m x"
proof -
  from cluster_of_Some [OF u] obtain cl where cl: "map_of m x = Some cl" "u \<in> set cl" by blast
  from c cl(1) have "x \<in> set cl" "\<forall>w \<in> set cl. map_of m w = Some cl"
    unfolding clusters_consistent_def by blast+
  with cl show ?thesis by (simp add: cluster_of_def)
qed

lemma share_storage_fn_linked:
  assumes s: "share_storage_fn dbg v p m = Inr m'" and c: "clusters_consistent m"
    and l: "clusters_linked db m" and a: "mayAlias db p v"
  shows "clusters_linked db m'"
  unfolding clusters_linked_def
proof (intro allI impI ballI)
  fix u cl w assume u: "map_of m' u = Some cl" and w: "w \<in> set cl"
  have to_rep: "\<And>x y. x \<in> cluster_of m y \<Longrightarrow> alias_linked db x y"
  proof -
    fix x y assume x: "x \<in> cluster_of m y"
    from cluster_of_member [OF c x] have e: "map_of m x = map_of m y" and y: "y \<in> cluster_of m y"
      by simp_all
    from cluster_of_Some [OF y] obtain cl where cl: "map_of m y = Some cl" "y \<in> set cl" by blast
    with e have "map_of m x = Some cl" by simp
    with l cl(2) show "alias_linked db x y" unfolding clusters_linked_def by blast
  qed
  have pv: "alias_linked db p v" using a by (rule alias_linked_step)
  have to_p: "\<And>x. x \<in> cluster_of m p \<union> cluster_of m v \<Longrightarrow> alias_linked db x p"
    using to_rep pv alias_linked_sym alias_linked_trans by blast
  from share_storage_fn_cluster [OF s c u w]
  show "alias_linked db u w"
  proof
    assume "\<exists>cl0. map_of m u = Some cl0 \<and> w \<in> set cl0"
    then show ?thesis using l unfolding clusters_linked_def by blast
  next
    assume "v \<noteq> p \<and> u \<in> cluster_of m p \<union> cluster_of m v
            \<and> w \<in> cluster_of m p \<union> cluster_of m v"
    then have "alias_linked db u p" "alias_linked db w p" using to_p by blast+
    then show ?thesis using alias_linked_sym alias_linked_trans by blast
  qed
qed

lemma merge_aliases_inv:
  "merge_aliases dbg db v ps m = Inr m' \<Longrightarrow> clusters_consistent m \<Longrightarrow> clusters_linked db m
     \<Longrightarrow> clusters_consistent m' \<and> clusters_linked db m'"
proof (induction ps arbitrary: m)
  case Nil
  then show ?case by simp
next
  case (Cons p ps)
  show ?case
  proof (cases "mayAlias db p v")
    case True
    with Cons.prems(1) obtain m1 where
      s: "share_storage_fn dbg v p m = Inr m1" and r: "merge_aliases dbg db v ps m1 = Inr m'"
      by (auto split: sum.splits)
    from share_storage_fn_consistent [OF s Cons.prems(2)]
      share_storage_fn_linked [OF s Cons.prems(2,3) True]
    show ?thesis by (rule Cons.IH [OF r])
  next
    case False
    with Cons.prems(1) have "merge_aliases dbg db v ps m = Inr m'" by simp
    then show ?thesis using Cons.prems(2,3) by (rule Cons.IH)
  qed
qed

lemma append_singleton_inv:
  assumes n: "map_of m v = None" and c: "clusters_consistent m" and l: "clusters_linked db m"
  shows "clusters_consistent (m @ [(v, [v])]) \<and> clusters_linked db (m @ [(v, [v])])"
proof -
  have mo: "\<And>w. map_of (m @ [(v, [v])]) w = (if w = v then Some [v] else map_of m w)"
    using n by (auto simp: map_add_def split: option.splits)
  have nv: "\<And>u cl. map_of m u = Some cl \<Longrightarrow> v \<notin> set cl"
    using n c unfolding clusters_consistent_def by (metis option.distinct(1))
  have "clusters_consistent (m @ [(v, [v])])"
    unfolding clusters_consistent_def
  proof (intro allI impI)
    fix u cl assume u: "map_of (m @ [(v, [v])]) u = Some cl"
    show "u \<in> set cl \<and> (\<forall>w \<in> set cl. map_of (m @ [(v, [v])]) w = Some cl)"
    proof (cases "u = v")
      case True
      with u mo have "cl = [v]" by simp
      with True mo show ?thesis by simp
    next
      case False
      with u mo have mu: "map_of m u = Some cl" by simp
      from c mu have a: "u \<in> set cl" and b: "\<forall>w \<in> set cl. map_of m w = Some cl"
        unfolding clusters_consistent_def by blast+
      from nv [OF mu] b have "\<forall>w \<in> set cl. map_of (m @ [(v, [v])]) w = Some cl"
        unfolding mo by (metis)
      with a show ?thesis by simp
    qed
  qed
  moreover have "clusters_linked db (m @ [(v, [v])])"
    unfolding clusters_linked_def
  proof (intro allI impI ballI)
    fix u cl w assume u: "map_of (m @ [(v, [v])]) u = Some cl" and w: "w \<in> set cl"
    show "alias_linked db u w"
    proof (cases "u = v")
      case True
      with u mo have "cl = [v]" by simp
      with True w show ?thesis by (simp add: alias_linked_refl)
    next
      case False
      with u mo have "map_of m u = Some cl" by simp
      with l w show ?thesis unfolding clusters_linked_def by blast
    qed
  qed
  ultimately show ?thesis by simp
qed

lemma init_same_storage_inv:
  "init_same_storage dbg db aa vs m = Inr m' \<Longrightarrow> clusters_consistent m \<Longrightarrow> clusters_linked db m
     \<Longrightarrow> clusters_consistent m' \<and> clusters_linked db m'"
proof (induction vs arbitrary: m)
  case Nil
  then show ?case by simp
next
  case (Cons v vs)
  define m1 where "m1 = (if map_of m v = None then m @ [(v, [v])] else m)"
  have i1: "clusters_consistent m1 \<and> clusters_linked db m1"
    using append_singleton_inv [of m v db] Cons.prems(2,3) by (simp add: m1_def)
  show ?case
  proof (cases "v \<in> aa")
    case True
    with Cons.prems(1) have "init_same_storage dbg db aa vs m1 = Inr m'"
      by (simp add: m1_def Let_def)
    then show ?thesis using i1 Cons.IH by blast
  next
    case False
    with Cons.prems(1) obtain m2 where
      a: "merge_aliases dbg db v (map fst m1) m1 = Inr m2"
      and r: "init_same_storage dbg db aa vs m2 = Inr m'"
      by (auto simp: m1_def Let_def split: sum.splits)
    from merge_aliases_inv [OF a] i1 have "clusters_consistent m2 \<and> clusters_linked db m2"
      by blast
    then show ?thesis using r Cons.IH by blast
  qed
qed

subsection \<open>Reuse respects the liveness map\<close>

lemma find_cluster_inv:
  assumes "find_cluster dbg live v ss m = Inr m'"
    and "clusters_consistent m" and "clusters_respect lm db m" and "lm_symmetric lm"
    and "\<And>x. x \<in> cluster_of m v \<Longrightarrow> live_with lm x \<subseteq> live"
  shows "clusters_consistent m' \<and> clusters_respect lm db m'"
  using assms
proof (induction ss)
  case Nil
  then show ?case by simp
next
  case (Cons s ss)
  from Cons.prems(1) obtain b where i: "intersect_fn m live s = Inr b"
    by (auto split: sum.splits)
  show ?case
  proof (cases b)
    case True
    with Cons.prems(1) i have "find_cluster dbg live v ss m = Inr m'" by simp
    then show ?thesis using Cons.IH Cons.prems(2-5) by blast
  next
    case False
    with Cons.prems(1) i have sh: "share_storage_fn dbg v s m = Inr m'" by simp
    have disj: "\<And>x. x \<in> cluster_of m s \<Longrightarrow> x \<notin> live"
    proof -
      fix x assume "x \<in> cluster_of m s"
      from cluster_of_Some [OF this] obtain cl where "map_of m s = Some cl" "x \<in> set cl" by blast
      with i False show "x \<notin> live" by (auto simp: intersect_fn_def)
    qed
    have cross: "\<And>a b. a \<in> cluster_of m s \<Longrightarrow> b \<in> cluster_of m v \<Longrightarrow> no_edge lm a b \<and> no_edge lm b a"
    proof -
      fix a b assume a: "a \<in> cluster_of m s" and b: "b \<in> cluster_of m v"
      have "a \<notin> live_with lm b" using disj [OF a] Cons.prems(5) [OF b] by auto
      moreover then have "b \<notin> live_with lm a"
        using Cons.prems(4) unfolding lm_symmetric_def by blast
      ultimately show "no_edge lm a b \<and> no_edge lm b a" by (simp add: no_edge_def)
    qed
    have within: "\<And>a b y. a \<in> cluster_of m y \<Longrightarrow> b \<in> cluster_of m y
        \<Longrightarrow> no_edge lm a b \<or> alias_linked db a b"
    proof -
      fix a b y assume a: "a \<in> cluster_of m y" and b: "b \<in> cluster_of m y"
      from cluster_of_member [OF Cons.prems(2) a] have e: "map_of m a = map_of m y" by simp
      from cluster_of_Some [OF b] obtain cl where cl: "map_of m y = Some cl" "b \<in> set cl" by blast
      with e have "map_of m a = Some cl" by simp
      with Cons.prems(3) cl(2) show "no_edge lm a b \<or> alias_linked db a b"
        unfolding clusters_respect_def by blast
    qed
    have "clusters_respect lm db m'"
      unfolding clusters_respect_def
    proof (intro allI impI ballI)
      fix u cl w assume u: "map_of m' u = Some cl" and w: "w \<in> set cl"
      from share_storage_fn_cluster [OF sh Cons.prems(2) u w]
      show "no_edge lm u w \<or> alias_linked db u w"
      proof
        assume "\<exists>cl0. map_of m u = Some cl0 \<and> w \<in> set cl0"
        then show ?thesis using Cons.prems(3) unfolding clusters_respect_def by blast
      next
        assume "v \<noteq> s \<and> u \<in> cluster_of m s \<union> cluster_of m v
            \<and> w \<in> cluster_of m s \<union> cluster_of m v"
        then show ?thesis using cross within by blast
      qed
    qed
    with share_storage_fn_consistent [OF sh Cons.prems(2)] show ?thesis by simp
  qed
qed

lemma reuse_storage_inv:
  "reuse_storage dbg lm aa vs (seen, m) = Inr (seen', m') \<Longrightarrow> clusters_consistent m
     \<Longrightarrow> clusters_respect lm db m \<Longrightarrow> lm_symmetric lm
     \<Longrightarrow> clusters_consistent m' \<and> clusters_respect lm db m'"
proof (induction vs arbitrary: seen m)
  case Nil
  then show ?case by simp
next
  case (Cons v vs)
  show ?case
  proof (cases "v \<in> aa")
    case True
    with Cons.prems(1) have "reuse_storage dbg lm aa vs (seen, m) = Inr (seen', m')" by simp
    then show ?thesis using Cons.IH Cons.prems(2-4) by blast
  next
    case False
    with Cons.prems(1) obtain live m1 where
      l: "compute_liveset_fn aa lm m v = Inr live"
      and f: "find_cluster dbg live v seen m = Inr m1"
      and r: "reuse_storage dbg lm aa vs (seen @ [v], m1) = Inr (seen', m')"
      by (auto split: sum.splits)
    have "\<And>x. x \<in> cluster_of m v \<Longrightarrow> live_with lm x \<subseteq> live"
    proof -
      fix x assume "x \<in> cluster_of m v"
      from cluster_of_Some [OF this] obtain cl where "map_of m v = Some cl" "x \<in> set cl" by blast
      with l show "live_with lm x \<subseteq> live"
        by (auto simp: compute_liveset_fn_def live_with_def)
    qed
    from find_cluster_inv [OF f Cons.prems(2,3,4) this]
    have "clusters_consistent m1 \<and> clusters_respect lm db m1" by blast
    then show ?thesis using r Cons.IH Cons.prems(4) by blast
  qed
qed

lemma GenerateSameStorageValues_respects:
  assumes "GenerateSameStorageValues dbg lm aa opt db = Inr m" and "lm_symmetric lm"
  shows "clusters_consistent m \<and> clusters_respect lm db m"
proof -
  from assms(1) obtain m1 seen where
    i: "init_same_storage dbg db aa (snd opt) [] = Inr m1"
    and r: "reuse_storage dbg lm aa (fst opt) ([], m1) = Inr (seen, m)"
    by (auto simp: GenerateSameStorageValues_def split: sum.splits)
  have "clusters_consistent []" "clusters_linked db []"
    by (simp_all add: clusters_consistent_def clusters_linked_def)
  from init_same_storage_inv [OF i this]
  have c1: "clusters_consistent m1" and l1: "clusters_linked db m1" by simp_all
  have "clusters_respect lm db m1"
    using l1 unfolding clusters_respect_def clusters_linked_def by blast
  from reuse_storage_inv [OF r c1 this assms(2)] show ?thesis .
qed

subsection \<open>The liveness map is symmetric\<close>

lemma live_with_upd:
  "live_with (lm(a \<mapsto> s)) x = (if x = a then s else live_with lm x)"
  by (simp add: live_with_def)

lemma lm_symmetric_empty: "lm_symmetric Map.empty"
  by (simp add: lm_symmetric_def live_with_def)

lemma lm_symmetric_fresh:
  assumes "lm_symmetric lm" "lm v = None"
  shows "lm_symmetric (lm(v \<mapsto> {}))"
proof -
  have "live_with lm v = {}" using assms(2) by (simp add: live_with_def)
  then have "\<And>x. live_with (lm(v \<mapsto> {})) x = live_with lm x"
    by (simp add: live_with_upd)
  with assms(1) show ?thesis by (simp add: lm_symmetric_def)
qed

lemma lm_symmetric_link:
  assumes s: "lm_symmetric lm" and a: "lm a = Some sa" and b: "(lm(a \<mapsto> insert b sa)) b = Some sb"
  shows "lm_symmetric (lm(a \<mapsto> insert b sa, b \<mapsto> insert a sb))"
proof -
  have la: "live_with lm a = sa" using a by (simp add: live_with_def)
  have lb: "a \<noteq> b \<Longrightarrow> live_with lm b = sb" using b by (simp add: live_with_def)
  have lb': "a = b \<Longrightarrow> sb = insert b sa" using b by simp
  let ?lm = "lm(a \<mapsto> insert b sa, b \<mapsto> insert a sb)"
  have lw: "\<And>x. live_with ?lm x =
      live_with lm x \<union> (if x = a then {b} else {}) \<union> (if x = b then {a} else {})"
    using la lb lb' by (auto simp: live_with_upd)
  show ?thesis
    unfolding lm_symmetric_def lw
    using s unfolding lm_symmetric_def by auto
qed

lemma add_edges_symmetric:
  "add_edges v ls lm = Inr lm' \<Longrightarrow> lm_symmetric lm \<Longrightarrow> lm_symmetric lm'"
proof (induction ls arbitrary: lm)
  case Nil
  then show ?case by simp
next
  case (Cons l ls)
  from Cons.prems(1) obtain s t where
    s: "lm v = Some s" and t: "(lm(v \<mapsto> insert l s)) l = Some t"
    and r: "add_edges v ls (lm(v \<mapsto> insert l s, l \<mapsto> insert v t)) = Inr lm'"
    by (auto simp: Let_def split: option.splits)
  from lm_symmetric_link [OF Cons.prems(2) s t] r show ?case by (rule Cons.IH [rotated])
qed

lemma add_uses_liveness_map:
  "add_uses v us st = Inr st' \<Longrightarrow> liveness_map st' = liveness_map st"
  by (induction us arbitrary: st) (auto split: option.splits)

lemma add_live_symmetric:
  "(add_live_value_fn fuel g db order v st = Inr st' \<longrightarrow> lm_symmetric (liveness_map st)
      \<longrightarrow> lm_symmetric (liveness_map st'))"
  "(add_aliased_values fuel g db order v as st = Inr st' \<longrightarrow> lm_symmetric (liveness_map st)
      \<longrightarrow> lm_symmetric (liveness_map st'))"
proof (induction fuel g db order v st and fuel g db order v as st arbitrary: st' and st'
    rule: add_live_value_fn_add_aliased_values.induct)
  case (1 g db order v st)
  then show ?case by simp
next
  case (2 fuel g db order v st)
  show ?case
  proof (intro impI)
    assume r: "add_live_value_fn (Suc fuel) g db order v st = Inr st'"
      and s: "lm_symmetric (liveness_map st)"
    show "lm_symmetric (liveness_map st')"
    proof (cases "liveness_map st v \<noteq> None")
      case True
      with r s show ?thesis by simp
    next
      case False
      then have n: "liveness_map st v = None" by simp
      from r False obtain lm1 st2 where
        e: "add_edges v (map fst (live_values_use_chain st)) ((liveness_map st)(v \<mapsto> {})) = Inr lm1"
        and u: "add_uses v (uses g v)
                     (st\<lparr>liveness_map := lm1,
                         live_values_use_chain :=
                           (if uses g v \<noteq> [] then AList.update v {} (live_values_use_chain st)
                            else live_values_use_chain st)\<rparr>) = Inr st2"
        and a: "add_aliased_values fuel g db order v (refined_aliases db order v) st2 = Inr st'"
        by (auto split: sum.splits)
      have "lm_symmetric lm1"
        using add_edges_symmetric [OF e lm_symmetric_fresh [OF s n]] .
      then have "lm_symmetric (liveness_map st2)"
        using add_uses_liveness_map [OF u] by simp
      with "2.IH" [OF False e u] a show ?thesis by blast
    qed
  qed
next
  case (3 fuel g db order v st)
  then show ?case by simp
next
  case (4 fuel g db order v aliased_v rest st)
  show ?case
  proof (intro impI)
    assume r: "add_aliased_values fuel g db order v (aliased_v # rest) st = Inr st'"
      and s: "lm_symmetric (liveness_map st)"
    from r obtain st1 st2 where
      l: "add_live_value_fn fuel g db order aliased_v st = Inr st1"
      and u: "add_uses v (uses g aliased_v) st1 = Inr st2"
      and a: "add_aliased_values fuel g db order v rest st2 = Inr st'"
      by (auto split: sum.splits)
    from "4.IH"(1) l s have "lm_symmetric (liveness_map st1)" by blast
    then have "lm_symmetric (liveness_map st2)"
      using add_uses_liveness_map [OF u] by simp
    with "4.IH"(2) [OF l u] a show "lm_symmetric (liveness_map st')" by blast
  qed
qed

lemma add_live_outputs_symmetric:
  "add_live_outputs fuel g db order aa vs st = Inr st' \<Longrightarrow> lm_symmetric (liveness_map st)
     \<Longrightarrow> lm_symmetric (liveness_map st')"
proof (induction vs arbitrary: st)
  case Nil
  then show ?case by simp
next
  case (Cons v vs)
  show ?case
  proof (cases "v \<in> aa")
    case True
    with Cons show ?thesis by simp
  next
    case False
    with Cons.prems(1) obtain st1 where
      l: "add_live_value_fn fuel g db order v st = Inr st1"
      and r: "add_live_outputs fuel g db order aa vs st1 = Inr st'"
      by (auto split: sum.splits)
    from add_live_symmetric(1) l Cons.prems(2) have "lm_symmetric (liveness_map st1)" by blast
    with r show ?thesis by (rule Cons.IH)
  qed
qed

lemma liveness_scan_symmetric:
  "liveness_scan fuel g db order aa ns st = Inr st' \<Longrightarrow> lm_symmetric (liveness_map st)
     \<Longrightarrow> lm_symmetric (liveness_map st')"
proof (induction ns arbitrary: st)
  case Nil
  then show ?case by simp
next
  case (Cons n ns)
  obtain i node where n: "n = (i, node)" by (cases n)
  from Cons.prems(1) n obtain st1 chain dead where
    o: "add_live_outputs fuel g db order aa (n_outputs node) st = Inr st1"
    and r: "liveness_scan fuel g db order aa ns
              (st1\<lparr>live_values_use_chain := fold AList.delete dead chain\<rparr>) = Inr st'"
    by (auto split: sum.splits)
  from add_live_outputs_symmetric [OF o Cons.prems(2)]
  have "lm_symmetric (liveness_map (st1\<lparr>live_values_use_chain := fold AList.delete dead chain\<rparr>))"
    by simp
  with r show ?case by (rule Cons.IH)
qed

lemma link_input_output_symmetric:
  "lm_symmetric lm \<Longrightarrow> lm_symmetric (link_input_output inp out lm)"
proof -
  assume s: "lm_symmetric lm"
  show ?thesis
  proof (cases "lm inp")
    case None
    with s show ?thesis by (simp add: link_input_output_def)
  next
    case (Some a)
    show ?thesis
    proof (cases "lm out")
      case None
      with s Some show ?thesis by (simp add: link_input_output_def)
    next
      case o: (Some b)
      then obtain b' where b': "(lm(inp \<mapsto> insert out a)) out = Some b'"
        by (cases "inp = out") auto
      from lm_symmetric_link [OF s Some b'] Some o b' show ?thesis
        by (simp add: link_input_output_def Let_def)
    qed
  qed
qed

lemma link_inputs_outputs_symmetric:
  "lm_symmetric lm \<Longrightarrow> lm_symmetric (link_inputs_outputs nodes lm)"
proof -
  have o: "\<And>inp outs lm. lm_symmetric lm \<Longrightarrow>
      lm_symmetric (fold (\<lambda>out lm3. link_input_output inp out lm3) outs lm)"
  proof -
    fix inp outs lm
    show "lm_symmetric lm \<Longrightarrow>
      lm_symmetric (fold (\<lambda>out lm3. link_input_output inp out lm3) outs lm)"
      by (induction outs arbitrary: lm) (simp_all add: link_input_output_symmetric)
  qed
  have i: "\<And>ins outs lm. lm_symmetric lm \<Longrightarrow>
      lm_symmetric (fold (\<lambda>inp lm2. fold (\<lambda>out lm3. link_input_output inp out lm3) outs lm2) ins lm)"
  proof -
    fix ins outs lm
    show "lm_symmetric lm \<Longrightarrow>
      lm_symmetric (fold (\<lambda>inp lm2. fold (\<lambda>out lm3. link_input_output inp out lm3) outs lm2) ins lm)"
      by (induction ins arbitrary: lm) (simp_all add: o)
  qed
  show "lm_symmetric lm \<Longrightarrow> lm_symmetric (link_inputs_outputs nodes lm)"
    unfolding link_inputs_outputs_def
    by (induction nodes arbitrary: lm) (simp_all add: i)
qed

lemma GetLivenessMap_symmetric:
  assumes "GetLivenessMap g aa db = Inr lm"
  shows "lm_symmetric lm"
proof -
  from assms obtain st where
    s: "liveness_scan (Suc (length (values_in_creation_order g))) g db (values_in_creation_order g) aa
          (enumerate 0 (g_nodes g))
          \<lparr>liveness_map = Map.empty, live_values_use_chain = [], live_nodes_def_chain = (\<lambda>n. [])\<rparr>
        = Inr st"
    and lm: "lm = link_inputs_outputs (g_nodes g) (liveness_map st)"
    by (auto simp: GetLivenessMap_def Let_def split: sum.splits if_splits)
  have "lm_symmetric (liveness_map st)"
    using liveness_scan_symmetric [OF s] by (simp add: lm_symmetric_empty)
  then show ?thesis unfolding lm by (rule link_inputs_outputs_symmetric)
qed

subsection \<open>The bound on the recursion is never reached\<close>

lemma add_edges_dom:
  "add_edges v ls lm = Inr lm' \<Longrightarrow> dom lm' = dom lm"
proof (induction ls arbitrary: lm)
  case Nil
  then show ?case by simp
next
  case (Cons l ls)
  from Cons.prems obtain s t where
    s: "lm v = Some s" and t: "(lm(v \<mapsto> insert l s)) l = Some t"
    and r: "add_edges v ls (lm(v \<mapsto> insert l s, l \<mapsto> insert v t)) = Inr lm'"
    by (auto simp: Let_def split: option.splits)
  have "l \<in> dom lm" using t s by (cases "l = v") auto
  moreover have "v \<in> dom lm" using s by auto
  ultimately have e: "dom (lm(v \<mapsto> insert l s, l \<mapsto> insert v t)) = dom lm"
    by (simp add: insert_absorb)
  from Cons.IH [OF r] e show ?case by (rule trans)
qed

lemma add_edges_no_fuel: "add_edges v ls lm \<noteq> Inl OutOfFuel"
  by (induction ls arbitrary: lm) (auto simp: Let_def split: option.splits)

lemma add_uses_no_fuel: "add_uses v us st \<noteq> Inl OutOfFuel"
  by (induction us arbitrary: st) (auto split: option.splits)

lemma unseen_mono:
  "dom (liveness_map st) \<subseteq> dom (liveness_map st') \<Longrightarrow> unseen order st' \<le> unseen order st"
  unfolding unseen_def by (intro card_mono) auto

lemma unseen_fresh:
  assumes "v \<in> set order" "v \<notin> dom (liveness_map st)" "dom (liveness_map st') = insert v (dom (liveness_map st))"
  shows "unseen order st' < unseen order st"
proof -
  have "set order - dom (liveness_map st') \<subset> set order - dom (liveness_map st)"
    using assms by auto
  then show ?thesis unfolding unseen_def by (intro psubset_card_mono) auto
qed

lemma add_live_fuel:
  "(v \<in> set order \<longrightarrow> unseen order st < fuel \<longrightarrow>
      add_live_value_fn fuel g db order v st \<noteq> Inl OutOfFuel
      \<and> (\<forall>st'. add_live_value_fn fuel g db order v st = Inr st'
            \<longrightarrow> dom (liveness_map st) \<subseteq> dom (liveness_map st')))"
  "(set as \<subseteq> set order \<longrightarrow> unseen order st < fuel \<longrightarrow>
      add_aliased_values fuel g db order v as st \<noteq> Inl OutOfFuel
      \<and> (\<forall>st'. add_aliased_values fuel g db order v as st = Inr st'
            \<longrightarrow> dom (liveness_map st) \<subseteq> dom (liveness_map st')))"
proof (induction fuel g db order v st and fuel g db order v as st
    rule: add_live_value_fn_add_aliased_values.induct)
  case (1 g db order v st)
  then show ?case by simp
next
  case (2 fuel g db order v st)
  show ?case
  proof (intro impI)
    assume v: "v \<in> set order" and f: "unseen order st < Suc fuel"
    show "add_live_value_fn (Suc fuel) g db order v st \<noteq> Inl OutOfFuel
      \<and> (\<forall>st'. add_live_value_fn (Suc fuel) g db order v st = Inr st'
            \<longrightarrow> dom (liveness_map st) \<subseteq> dom (liveness_map st'))"
    proof (cases "liveness_map st v \<noteq> None")
      case True
      then show ?thesis by simp
    next
      case False
      show ?thesis
      proof (cases "add_edges v (map fst (live_values_use_chain st)) ((liveness_map st)(v \<mapsto> {}))")
        case (Inl e)
        with False add_edges_no_fuel [of v "map fst (live_values_use_chain st)" "(liveness_map st)(v \<mapsto> {})"]
        show ?thesis by simp
      next
        case e: (Inr lm1)
        let ?st1 = "st\<lparr>liveness_map := lm1,
                         live_values_use_chain :=
                           (if uses g v \<noteq> [] then AList.update v {} (live_values_use_chain st)
                            else live_values_use_chain st)\<rparr>"
        have d1: "dom lm1 = insert v (dom (liveness_map st))"
          using add_edges_dom [OF e] by simp
        show ?thesis
        proof (cases "add_uses v (uses g v) ?st1")
          case (Inl e')
          with False e add_uses_no_fuel [of v "uses g v" ?st1] show ?thesis by simp
        next
          case u: (Inr st2)
          have d2: "dom (liveness_map st2) = insert v (dom (liveness_map st))"
            using add_uses_liveness_map [OF u] d1 by simp
          have "unseen order st2 < unseen order st"
            using unseen_fresh [OF v _ d2] False by auto
          with f have f2: "unseen order st2 < fuel" by simp
          have sub: "set (refined_aliases db order v) \<subseteq> set order"
            by (auto simp: refined_aliases_def dest: in_set_dropD)
          from "2.IH" [OF False e u] sub f2
          have "add_aliased_values fuel g db order v (refined_aliases db order v) st2 \<noteq> Inl OutOfFuel
            \<and> (\<forall>st'. add_aliased_values fuel g db order v (refined_aliases db order v) st2 = Inr st'
                  \<longrightarrow> dom (liveness_map st2) \<subseteq> dom (liveness_map st'))"
            by blast
          then have r: "add_aliased_values fuel g db order v (refined_aliases db order v) st2 \<noteq> Inl OutOfFuel"
            and rd: "\<And>st'. add_aliased_values fuel g db order v (refined_aliases db order v) st2 = Inr st'
                  \<Longrightarrow> dom (liveness_map st) \<subseteq> dom (liveness_map st')"
            using d2 by (blast intro: subset_trans)+
          from False e u r rd show ?thesis by simp
        qed
      qed
    qed
  qed
next
  case (3 fuel g db order v st)
  then show ?case by simp
next
  case (4 fuel g db order v aliased_v rest st)
  show ?case
  proof (intro impI)
    assume s: "set (aliased_v # rest) \<subseteq> set order" and f: "unseen order st < fuel"
    from "4.IH"(1) s f have
      l: "add_live_value_fn fuel g db order aliased_v st \<noteq> Inl OutOfFuel"
      and ld: "\<And>st'. add_live_value_fn fuel g db order aliased_v st = Inr st'
            \<Longrightarrow> dom (liveness_map st) \<subseteq> dom (liveness_map st')"
      by auto
    show "add_aliased_values fuel g db order v (aliased_v # rest) st \<noteq> Inl OutOfFuel
      \<and> (\<forall>st'. add_aliased_values fuel g db order v (aliased_v # rest) st = Inr st'
            \<longrightarrow> dom (liveness_map st) \<subseteq> dom (liveness_map st'))"
    proof (cases "add_live_value_fn fuel g db order aliased_v st")
      case (Inl e)
      with l show ?thesis by simp
    next
      case l1: (Inr st1)
      note d1 = ld [OF l1]
      show ?thesis
      proof (cases "add_uses v (uses g aliased_v) st1")
        case (Inl e)
        with l1 add_uses_no_fuel [of v "uses g aliased_v" st1] show ?thesis by simp
      next
        case u: (Inr st2)
        have d2: "dom (liveness_map st) \<subseteq> dom (liveness_map st2)"
          using add_uses_liveness_map [OF u] d1 by simp
        have f2: "unseen order st2 < fuel"
          using unseen_mono [OF d2, of order] f by simp
        from "4.IH"(2) [OF l1 u] s f2 have
          "add_aliased_values fuel g db order v rest st2 \<noteq> Inl OutOfFuel
           \<and> (\<forall>st'. add_aliased_values fuel g db order v rest st2 = Inr st'
                 \<longrightarrow> dom (liveness_map st2) \<subseteq> dom (liveness_map st'))"
          by auto
        then have r: "add_aliased_values fuel g db order v rest st2 \<noteq> Inl OutOfFuel"
          and rd: "\<And>st'. add_aliased_values fuel g db order v rest st2 = Inr st'
                 \<Longrightarrow> dom (liveness_map st) \<subseteq> dom (liveness_map st')"
          using d2 by (blast intro: subset_trans)+
        from l1 u r rd show ?thesis by simp
      qed
    qed
  qed
qed

lemma add_live_outputs_fuel:
  "set vs \<subseteq> set order \<Longrightarrow> unseen order st < fuel \<Longrightarrow>
     add_live_outputs fuel g db order aa vs st \<noteq> Inl OutOfFuel
     \<and> (\<forall>st'. add_live_outputs fuel g db order aa vs st = Inr st'
           \<longrightarrow> dom (liveness_map st) \<subseteq> dom (liveness_map st'))"
proof (induction vs arbitrary: st)
  case Nil
  then show ?case by simp
next
  case (Cons v vs)
  show ?case
  proof (cases "v \<in> aa")
    case True
    with Cons show ?thesis by simp
  next
    case False
    from add_live_fuel(1) [of v order st "fuel" g db] Cons.prems have
      l: "add_live_value_fn fuel g db order v st \<noteq> Inl OutOfFuel"
      and ld: "\<And>st'. add_live_value_fn fuel g db order v st = Inr st'
            \<Longrightarrow> dom (liveness_map st) \<subseteq> dom (liveness_map st')"
      by auto
    show ?thesis
    proof (cases "add_live_value_fn fuel g db order v st")
      case (Inl e)
      with l False show ?thesis by simp
    next
      case l1: (Inr st1)
      note d1 = ld [OF l1]
      have "unseen order st1 < fuel" using unseen_mono [OF d1, of order] Cons.prems(2) by simp
      with Cons.IH [of st1] Cons.prems(1) have
        "add_live_outputs fuel g db order aa vs st1 \<noteq> Inl OutOfFuel
         \<and> (\<forall>st'. add_live_outputs fuel g db order aa vs st1 = Inr st'
           \<longrightarrow> dom (liveness_map st1) \<subseteq> dom (liveness_map st'))"
        by simp
      then have r: "add_live_outputs fuel g db order aa vs st1 \<noteq> Inl OutOfFuel"
        and rd: "\<And>st'. add_live_outputs fuel g db order aa vs st1 = Inr st'
           \<Longrightarrow> dom (liveness_map st) \<subseteq> dom (liveness_map st')"
        using d1 by (blast intro: subset_trans)+
      from False l1 r rd show ?thesis by simp
    qed
  qed
qed

lemma traverse_node_fn_no_fuel: "traverse_node_fn node vs cd \<noteq> Inl OutOfFuel"
proof (induction vs arbitrary: cd)
  case Nil
  then show ?case by (cases cd) simp
next
  case (Cons v vs)
  then show ?case by (cases cd) (auto split: option.splits)
qed

lemma liveness_scan_fuel:
  "(\<forall>n \<in> set ns. set (n_outputs (snd n)) \<subseteq> set order) \<Longrightarrow> unseen order st < fuel \<Longrightarrow>
     liveness_scan fuel g db order aa ns st \<noteq> Inl OutOfFuel"
proof (induction ns arbitrary: st)
  case Nil
  then show ?case by simp
next
  case (Cons n ns)
  obtain i node where n: "n = (i, node)" by (cases n)
  have sub: "set (n_outputs node) \<subseteq> set order" using Cons.prems(1) n by simp
  note o = add_live_outputs_fuel [OF sub Cons.prems(2), of g db aa]
  show ?case
  proof (cases "add_live_outputs fuel g db order aa (n_outputs node) st")
    case (Inl e)
    with o n show ?thesis by simp
  next
    case o1: (Inr st1)
    with o have d1: "dom (liveness_map st) \<subseteq> dom (liveness_map st1)" by simp
    show ?thesis
    proof (cases "traverse_node_fn i (live_nodes_def_chain st1 i) (live_values_use_chain st1, [])")
      case (Inl e)
      with o1 n traverse_node_fn_no_fuel [of i "live_nodes_def_chain st1 i" "(live_values_use_chain st1, [])"]
      show ?thesis by simp
    next
      case t: (Inr cd)
      obtain chain dead where cd: "cd = (chain, dead)" by (cases cd)
      let ?st2 = "st1\<lparr>live_values_use_chain := fold AList.delete dead chain\<rparr>"
      have "unseen order ?st2 < fuel"
        using unseen_mono [OF d1, of order] Cons.prems(2) by (simp add: unseen_def)
      with Cons.IH [of ?st2] Cons.prems(1)
      have "liveness_scan fuel g db order aa ns ?st2 \<noteq> Inl OutOfFuel" by simp
      with o1 t cd n show ?thesis by simp
    qed
  qed
qed

lemma GetLivenessMap_fuel: "GetLivenessMap g aa db \<noteq> Inl OutOfFuel"
proof -
  let ?order = "values_in_creation_order g"
  let ?st0 = "\<lparr>liveness_map = Map.empty, live_values_use_chain = [], live_nodes_def_chain = (\<lambda>n. [])\<rparr>"
  have a: "\<forall>n \<in> set (enumerate 0 (g_nodes g)). set (n_outputs (snd n)) \<subseteq> set ?order"
    using nth_mem [of _ "g_nodes g"]
    by (fastforce simp: values_in_creation_order_def in_set_enumerate_eq)
  have "unseen ?order ?st0 \<le> length ?order"
    by (simp add: unseen_def card_length)
  then have b: "unseen ?order ?st0 < Suc (length ?order)" by simp
  from liveness_scan_fuel [OF a b, of g db aa]
  show ?thesis
    by (auto simp: GetLivenessMap_def Let_def split: sum.splits)
qed

subsection \<open>Clusters and liveness\<close>

text \<open>
  C1 (amended). For every graph analysed with optimize_memory, two distinct values that
  GenerateSameStorageValues places in one cluster have no edge in the liveness map returned
  by GetLivenessMap, or they are linked through the alias database: a chain of values leads
  from one to the other in which the database asserts mayAlias for every two neighbours.
  The bound on the recursion of add_live_value_fn is never reached.
\<close>

theorem same_storage_respects_liveness:
  "GetLivenessMap g aa db \<noteq> Inl OutOfFuel
   \<and> (optimize_memory opts \<and> prepare_memory_planning env opts g db = Inr (aa, m)
        \<and> GetLivenessMap g aa db = Inr lm
        \<and> map_of m u = Some cl \<and> v \<in> set cl \<and> u \<noteq> v
       \<longrightarrow> no_edge lm u v \<or> alias_linked db u v)"
proof (intro conjI impI)
  show "GetLivenessMap g aa db \<noteq> Inl OutOfFuel" by (rule GetLivenessMap_fuel)
next
  assume a: "optimize_memory opts \<and> prepare_memory_planning env opts g db = Inr (aa, m)
        \<and> GetLivenessMap g aa db = Inr lm
        \<and> map_of m u = Some cl \<and> v \<in> set cl \<and> u \<noteq> v"
  then have aa: "aa = GetAlwaysAliveValues g db"
    by (auto simp: prepare_memory_planning_def Let_def split: sum.splits)
  from a aa have
    gen: "GenerateSameStorageValues (debug_build env) lm aa
            (GetMemoryPlanningCandidates (canReuseInputsOutputs env) g) db = Inr m"
    by (auto simp: prepare_memory_planning_def Let_def split: sum.splits)
  from a have l: "GetLivenessMap g aa db = Inr lm" by simp
  from GenerateSameStorageValues_respects [OF gen GetLivenessMap_symmetric [OF l]]
  have "clusters_respect lm db m" by simp
  with a show "no_edge lm u v \<or> alias_linked db u v"
    unfolding clusters_respect_def by blast
qed

text \<open>
  The link need not be direct. In \<open>1 = f(0); 2 = f(1); 3 = f(2); 4 = f(1, 3)\<close> the values 1 and
  3 are live together; 2 may alias both, so all three share a cluster, though the database
  does not assert that 1 and 3 may alias.
\<close>

theorem same_storage_respects_liveness_counterexample:
  "(case prepare_memory_planning ex_env ex_opts_memory ex_alias_graph ex_alias_db of
      Inl e \<Rightarrow> False
    | Inr (aa, m) \<Rightarrow>
        (case GetLivenessMap ex_alias_graph aa ex_alias_db of
           Inl e \<Rightarrow> False
         | Inr lm \<Rightarrow>
             map_of m 1 = Some [1, 2, 3] \<and> 3 \<in> live_with lm 1 \<and> 1 \<in> live_with lm 3
             \<and> \<not> mayAlias ex_alias_db 1 3 \<and> \<not> mayAlias ex_alias_db 3 1))"
  by code_simp

theorem same_storage_respects_liveness_witness:
  "optimize_memory ex_opts_memory
   \<and> prepare_memory_planning ex_env ex_opts_memory ex_chain_graph ex_db
       = Inr ({0, 4}, [(0, [0]), (1, [1, 3]), (2, [2]), (3, [1, 3]), (4, [4])])
   \<and> (\<exists>lm. GetLivenessMap ex_chain_graph {0, 4} ex_db = Inr lm
          \<and> (no_edge lm 1 3 \<or> alias_linked ex_db 1 3) \<and> no_edge lm 1 3)"
proof -
  have o: "optimize_memory ex_opts_memory" by (simp add: ex_opts_memory_def)
  have p: "prepare_memory_planning ex_env ex_opts_memory ex_chain_graph ex_db
       = Inr ({0, 4}, [(0, [0]), (1, [1, 3]), (2, [2]), (3, [1, 3]), (4, [4])])"
    by code_simp
  have "\<not> isl (GetLivenessMap ex_chain_graph {0, 4} ex_db)" by code_simp
  then obtain lm where l: "GetLivenessMap ex_chain_graph {0, 4} ex_db = Inr lm"
    by (cases "GetLivenessMap ex_chain_graph {0, 4} ex_db") auto
  have "case GetLivenessMap ex_chain_graph {0, 4} ex_db of Inl e \<Rightarrow> False
        | Inr lm \<Rightarrow> no_edge lm 1 3"
    by code_simp
  with l have n: "no_edge lm 1 3" by simp
  from same_storage_respects_liveness [where g = ex_chain_graph and aa = "{0, 4}" and db = ex_db
      and opts = ex_opts_memory and env = ex_env and lm = lm and u = 1 and v = 3 and cl = "[1, 3]"
      and m = "[(0, [0]), (1, [1, 3]), (2, [2]), (3, [1, 3]), (4, [4])]"] o p l
  have "no_edge lm 1 3 \<or> alias_linked ex_db 1 3" by simp
  with o p l n show ?thesis by blast
qed

subsection \<open>Two runs of a chain of four nodes\<close>

text \<open>
  The module is built from the chain, a runtime from the module, and invoke is called twice.
  The first run makes the planner, which learns 128 bytes for the cluster of the values 1 and
  3 and 64 for the value 2 and acquires nothing; the second run acquires one buffer of 192
  bytes, in which one tensor reuses the storage of another.
\<close>

lemma two_runs_example:
  "(case StaticModule_ctor ex_env ex_db ex_chain_graph None ex_opts_memory of
      Inl e \<Rightarrow> False
    | Inr sm \<Rightarrow>
        (case StaticRuntime_ctor ex_env ex_heap sm of
           Inl e \<Rightarrow> False
         | Inr rt \<Rightarrow>
             (case invoke ex_env rt [IVTensor True] [] of
                (rt1, r1) \<Rightarrow>
                  (case invoke ex_env rt1 [IVTensor True] [] of
                     (rt2, r2) \<Rightarrow>
                       r1 = Inr (IVTensor True) \<and> r2 = Inr (IVTensor True)
                       \<and> map_option managed_tensors (rt_planner rt1)
                           = Some [(128, [OutSlot 0 0, OutSlot 2 0]), (64, [OutSlot 1 0])]
                       \<and> map_option managed_bytes (rt_planner rt1) = Some 192
                       \<and> map_option buffers_acquired (rt_planner rt1) = Some []
                       \<and> map_option buffers_acquired (rt_planner rt2) = Some [192]
                       \<and> map_option reused_tensors (rt_planner rt2) = Some 1
                       \<and> map_option managed_bytes (rt_planner rt2) = Some 192))))"
  by code_simp

end
